theory Spec2Isabelle
  imports
    Complex_Main
    "HOL-Library.Sublist"
    "HOL-Library.Multiset"
    "HOL-Library.Char_ord"
    "HOL-Library.List_Lexorder"
begin

section \<open>Values, errors and text\<close>

text \<open>
  The errors the modelled code can raise. \<open>DecodeError\<close> stands for whatever
  \<^verbatim>\<open>type_map[topic]\<close>, \<^verbatim>\<open>get_message\<close> or \<^verbatim>\<open>deserialize_message\<close> raise on a
  message; \<open>OSError\<close> is what \<^verbatim>\<open>open\<close>, \<^verbatim>\<open>print\<close> and \<^verbatim>\<open>close\<close> raise when the
  operating system refuses, \<open>UnicodeEncodeError\<close> what \<^verbatim>\<open>print\<close> raises on a character
  the encoding of the file does not have; \<open>SystemExit\<close> carries the status of
  \<^verbatim>\<open>sys.exit\<close>.
\<close>

datatype py_error =
    TypeError
  | AttributeError
  | DecodeError
  | ValueError
  | OSError
  | UnicodeEncodeError
  | FileExistsError
  | FileNotFoundError
  | NotADirectoryError
  | SystemExit nat

text \<open>
  A Python \<^verbatim>\<open>float\<close> is an IEEE double: a finite value (\<open>Finite r\<close> for the real number
  \<open>r\<close> it stands for, \<open>Finite 0\<close> being \<^verbatim>\<open>0.0\<close>), \<^verbatim>\<open>-0.0\<close>, an infinity or a NaN. A
  Python number is an \<^verbatim>\<open>int\<close> (unbounded) or a \<^verbatim>\<open>float\<close>.
\<close>

datatype double = Finite real | NegZero | PosInf | NegInf | NaN

datatype pynum = PyInt int | PyFloat double

text \<open>
  The arithmetic of doubles rounds, and \<^verbatim>\<open>str\<close> of a double is its shortest decimal
  that reads back. Neither is computed here: the conversion of an int, the double of the
  literal \<^verbatim>\<open>1e-9\<close>, the three operations the code uses and the text of a double are
  the fields of a parameter, and every theorem holds whatever they are, so also for the
  operations of the machine. (The ints of a decoded message and the timestamps of a bag
  have 64 bits at most, so the conversion of an int to a float does not overflow.)
\<close>

record float_ops =
  f_of_int :: "int \<Rightarrow> double"
  f_nano :: double
  f_mul :: "double \<Rightarrow> double \<Rightarrow> double"
  f_add :: "double \<Rightarrow> double \<Rightarrow> double"
  f_sub :: "double \<Rightarrow> double \<Rightarrow> double"
  f_repr :: "double \<Rightarrow> string"

text \<open>
  A leaf of a decoded message: a number, a boolean, a string, or any other object that
  is neither a \<^verbatim>\<open>list\<close> nor a message (\<^verbatim>\<open>bytes\<close>, a numpy array of a fixed-size
  field); the last kind is given by the text \<^verbatim>\<open>str()\<close> returns for it.
\<close>

datatype scalar = Num pynum | Bool bool | Str string | Obj string

text \<open>
  A decoded message value as \<^verbatim>\<open>_gen_msg_values\<close> sees it: a Python \<^verbatim>\<open>list\<close>, an object
  with \<^verbatim>\<open>get_fields_and_field_types\<close> (the ordered dict of field name and type string,
  each field with the value \<^verbatim>\<open>getattr\<close> returns), or anything else. The value of a
  field of a \<^verbatim>\<open>sequence<\<close> type that the decoder gives as an \<^verbatim>\<open>array.array\<close> or another
  iterable object is written as a \<open>PyList\<close> too: the code only iterates it.
\<close>

datatype pyval =
    Leaf scalar
  | PyList "pyval list"
  | Msg "(string \<times> string \<times> pyval) list"

definition startswith :: "string \<Rightarrow> string \<Rightarrow> bool" where
  "startswith s p = (take (length p) s = p)"

fun join :: "string \<Rightarrow> string list \<Rightarrow> string" where
  "join sep [] = []"
| "join sep [x] = x"
| "join sep (x # y # ys) = x @ sep @ join sep (y # ys)"

text \<open>Decimal text of a natural number and of an integer, as \<^verbatim>\<open>str\<close> prints a Python int.\<close>

fun str_nat :: "nat \<Rightarrow> string" where
  "str_nat n =
     (if n < 10 then [''0123456789'' ! n]
      else str_nat (n div 10) @ [''0123456789'' ! (n mod 10)])"

declare str_nat.simps [simp del]

definition str_int :: "int \<Rightarrow> string" where
  "str_int i = (if i < 0 then CHR ''-'' # str_nat (nat (- i)) else str_nat (nat i))"

text \<open>\<^verbatim>\<open>str(v)\<close> of a number and of a leaf.\<close>

fun str_num :: "float_ops \<Rightarrow> pynum \<Rightarrow> string" where
  "str_num fl (PyInt i) = str_int i"
| "str_num fl (PyFloat d) = f_repr fl d"

fun py_str :: "float_ops \<Rightarrow> scalar \<Rightarrow> string" where
  "py_str fl (Num n) = str_num fl n"
| "py_str fl (Bool b) = (if b then ''True'' else ''False'')"
| "py_str fl (Str s) = s"
| "py_str fl (Obj s) = s"

section \<open>Field flattener\<close>

text \<open>
  \<^verbatim>\<open>_gen_msg_values(msg, prefix)\<close>. The generator is always consumed whole (by a list
  comprehension), so the model returns the whole list, or the error raised on the way.
  \<open>gen_list\<close> is the \<^verbatim>\<open>for i, val in enumerate(...)\<close> loop from index \<open>i\<close> on, and
  \<open>gen_fields\<close> the loop over \<^verbatim>\<open>get_fields_and_field_types().items()\<close>. The value of a
  field of a \<^verbatim>\<open>sequence<\<close> type is iterated whatever it is: a list gives its elements, a
  string its characters, each one a string and so a leaf (\<open>iter_chars\<close>); a number, a
  boolean or a message cannot be iterated and raises \<^verbatim>\<open>TypeError\<close>. So does a leaf
  \<open>Obj\<close> there: an iterable object in such a field is written as a \<open>PyList\<close>.
\<close>

definition iter_chars :: "string \<Rightarrow> string \<Rightarrow> (string \<times> scalar) list" where
  "iter_chars s pfx = [(pfx @ ''['' @ str_nat i @ '']'', Str [c]). (i, c) \<leftarrow> enumerate 0 s]"

fun gen_msg_values :: "pyval \<Rightarrow> string \<Rightarrow> py_error + (string \<times> scalar) list"
  and gen_list :: "pyval list \<Rightarrow> string \<Rightarrow> nat \<Rightarrow> py_error + (string \<times> scalar) list"
  and gen_fields :: "(string \<times> string \<times> pyval) list \<Rightarrow> string \<Rightarrow> py_error + (string \<times> scalar) list"
where
  "gen_msg_values (PyList xs) pfx = gen_list xs pfx 0"
| "gen_msg_values (Msg fs) pfx = gen_fields fs pfx"
| "gen_msg_values (Leaf v) pfx = Inr [(pfx, v)]"
| "gen_list [] pfx i = Inr []"
| "gen_list (val # rest) pfx i =
     (case gen_msg_values val (pfx @ ''['' @ str_nat i @ '']'') of
        Inl e \<Rightarrow> Inl e
      | Inr a \<Rightarrow> (case gen_list rest pfx (Suc i) of
                   Inl e \<Rightarrow> Inl e
                 | Inr b \<Rightarrow> Inr (a @ b)))"
| "gen_fields [] pfx = Inr []"
| "gen_fields ((field, field_type, val) # rest) pfx =
     (let full_field_name = (if pfx \<noteq> [] then pfx @ ''.'' @ field else field)
      in case (if startswith field_type ''sequence<''
               then (case val of
                       PyList ys \<Rightarrow> gen_list ys full_field_name 0
                     | Leaf (Str s) \<Rightarrow> Inr (iter_chars s full_field_name)
                     | _ \<Rightarrow> Inl TypeError)
               else gen_msg_values val full_field_name) of
           Inl e \<Rightarrow> Inl e
         | Inr a \<Rightarrow> (case gen_fields rest pfx of
                      Inl e \<Rightarrow> Inl e
                    | Inr b \<Rightarrow> Inr (a @ b)))"

section \<open>Bag locator\<close>

text \<open>
  The directory tree: a node is a directory with its entries (name and node, in the
  order the operating system lists them) or any other kind of file. A path is the list
  of its components below the root of the tree. Symbolic links are not modelled.
\<close>

type_synonym path = "string list"

datatype node = File | Dir "(string \<times> node) list"

fun fs_lookup :: "node \<Rightarrow> path \<Rightarrow> node option" where
  "fs_lookup n [] = Some n"
| "fs_lookup File (c # cs) = None"
| "fs_lookup (Dir es) (c # cs) =
     (case map_of es c of None \<Rightarrow> None | Some child \<Rightarrow> fs_lookup child cs)"

text \<open>\<^verbatim>\<open>Path.exists()\<close>, \<^verbatim>\<open>Path.is_dir()\<close> and the names a directory lists.\<close>

definition path_exists :: "node \<Rightarrow> path \<Rightarrow> bool" where
  "path_exists fs p = (fs_lookup fs p \<noteq> None)"

definition is_dir :: "node \<Rightarrow> path \<Rightarrow> bool" where
  "is_dir fs p = (case fs_lookup fs p of Some (Dir es) \<Rightarrow> True | _ \<Rightarrow> False)"

definition listdir :: "node \<Rightarrow> path \<Rightarrow> string list" where
  "listdir fs p = (case fs_lookup fs p of Some (Dir es) \<Rightarrow> map fst es | _ \<Rightarrow> [])"

definition endswith :: "string \<Rightarrow> string \<Rightarrow> bool" where
  "endswith s sfx =
     (length sfx \<le> length s \<and> drop (length s - length sfx) s = sfx)"

text \<open>
  \<^verbatim>\<open>path.glob("*.db3")\<close>: the entries of the directory, of any kind, whose name ends in
  \<^verbatim>\<open>.db3\<close> (pathlib's \<^verbatim>\<open>*\<close> also matches the empty string and a leading dot).
\<close>

definition glob_db3 :: "node \<Rightarrow> path \<Rightarrow> path list" where
  "glob_db3 fs p = [p @ [n]. n \<leftarrow> listdir fs p, endswith n ''.db3'']"

definition is_rosbag_dir :: "node \<Rightarrow> path \<Rightarrow> bool" where
  "is_rosbag_dir fs p =
     (if \<not> is_dir fs p then False
      else
        let has_metadata = path_exists fs (p @ [''metadata.yaml'']);
            has_db3 = (glob_db3 fs p \<noteq> [])
        in has_metadata \<and> has_db3)"

text \<open>
  The loop of \<^verbatim>\<open>find_rosbags\<close> over \<^verbatim>\<open>os.walk\<close>, top-down: \<open>walk_bags\<close> visits the
  directory \<open>dirpath\<close> (whose node is the third argument); when it is a bag it is
  appended and \<^verbatim>\<open>dirnames.clear()\<close> stops the descent, otherwise \<open>walk_subdirs\<close> walks
  its entries in turn. \<^verbatim>\<open>os.walk\<close> yields nothing for what is not a directory.
\<close>

fun walk_bags :: "node \<Rightarrow> path \<Rightarrow> node \<Rightarrow> path list"
  and walk_subdirs :: "node \<Rightarrow> path \<Rightarrow> (string \<times> node) list \<Rightarrow> path list"
where
  "walk_bags fs dirpath File = []"
| "walk_bags fs dirpath (Dir es) =
     (if is_rosbag_dir fs dirpath then [dirpath] else walk_subdirs fs dirpath es)"
| "walk_subdirs fs dirpath [] = []"
| "walk_subdirs fs dirpath ((name, child) # rest) =
     walk_bags fs (dirpath @ [name]) child @ walk_subdirs fs dirpath rest"

text \<open>
  \<^verbatim>\<open>sorted(rosbags)\<close>: \<^verbatim>\<open>Path\<close> objects compare by their lists of components, and the
  components as strings; \<open>sort\<close> is taken at the lexicographic order of lists.
\<close>

definition find_rosbags :: "node \<Rightarrow> path \<Rightarrow> path list" where
  "find_rosbags fs root_path =
     sort (case fs_lookup fs root_path of
             Some n \<Rightarrow> walk_bags fs root_path n
           | None \<Rightarrow> [])"

text \<open>What every directory tree satisfies: the names within one directory are distinct.\<close>

fun wf_node :: "node \<Rightarrow> bool"
  and wf_entries :: "(string \<times> node) list \<Rightarrow> bool"
where
  "wf_node File = True"
| "wf_node (Dir es) = (distinct (map fst es) \<and> wf_entries es)"
| "wf_entries [] = True"
| "wf_entries ((name, child) # rest) = (wf_node child \<and> wf_entries rest)"

section \<open>Topic dump engine\<close>

text \<open>
  Attribute access on a decoded value: a message has its fields as attributes; a list or
  a leaf has none of the names the code asks for.
\<close>

fun py_getattr :: "pyval \<Rightarrow> string \<Rightarrow> py_error + pyval" where
  "py_getattr (Msg fs) name =
     (case map_of fs name of Some (field_type, val) \<Rightarrow> Inr val | None \<Rightarrow> Inl AttributeError)"
| "py_getattr (PyList xs) name = Inl AttributeError"
| "py_getattr (Leaf v) name = Inl AttributeError"

definition py_hasattr :: "pyval \<Rightarrow> string \<Rightarrow> bool" where
  "py_hasattr v name = (case py_getattr v name of Inr _ \<Rightarrow> True | Inl _ \<Rightarrow> False)"

text \<open>
  The double a leaf becomes in float arithmetic: an \<^verbatim>\<open>int\<close> is converted, a \<^verbatim>\<open>bool\<close> is
  the int 0 or 1; a string has none, and arithmetic on any other object is taken to
  raise as well.
\<close>

fun to_float :: "float_ops \<Rightarrow> scalar \<Rightarrow> double option" where
  "to_float fl (Num (PyInt i)) = Some (f_of_int fl i)"
| "to_float fl (Num (PyFloat d)) = Some d"
| "to_float fl (Bool b) = Some (f_of_int fl (if b then 1 else 0))"
| "to_float fl (Str s) = None"
| "to_float fl (Obj s) = None"

text \<open>\<^verbatim>\<open>c * v\<close> for a float \<open>c\<close>, and \<^verbatim>\<open>v + x\<close> for a float \<open>x\<close>.\<close>

fun float_mul :: "float_ops \<Rightarrow> double \<Rightarrow> pyval \<Rightarrow> py_error + double" where
  "float_mul fl c (Leaf v) =
     (case to_float fl v of Some x \<Rightarrow> Inr (f_mul fl c x) | None \<Rightarrow> Inl TypeError)"
| "float_mul fl c (PyList xs) = Inl TypeError"
| "float_mul fl c (Msg fs) = Inl TypeError"

fun add_float :: "float_ops \<Rightarrow> pyval \<Rightarrow> double \<Rightarrow> py_error + pynum" where
  "add_float fl (Leaf v) x =
     (case to_float fl v of Some y \<Rightarrow> Inr (PyFloat (f_add fl y x)) | None \<Rightarrow> Inl TypeError)"
| "add_float fl (PyList xs) x = Inl TypeError"
| "add_float fl (Msg fs) x = Inl TypeError"

text \<open>
  \<^verbatim>\<open>a - b\<close> on numbers, line 120: the difference of the ints when both are ints, else
  the difference of the doubles, an int being converted first.
\<close>

fun py_sub :: "float_ops \<Rightarrow> pynum \<Rightarrow> pynum \<Rightarrow> pynum" where
  "py_sub fl (PyInt a) (PyInt b) = PyInt (a - b)"
| "py_sub fl (PyInt a) (PyFloat y) = PyFloat (f_sub fl (f_of_int fl a) y)"
| "py_sub fl (PyFloat x) (PyInt b) = PyFloat (f_sub fl x (f_of_int fl b))"
| "py_sub fl (PyFloat x) (PyFloat y) = PyFloat (f_sub fl x y)"

text \<open>
  Lines 112 to 115 of \<^verbatim>\<open>dump_bag\<close>: the time of a message, from its header when it has
  an attribute \<^verbatim>\<open>header\<close>, else the timestamp the bag recorded.
\<close>

definition time_sec :: "float_ops \<Rightarrow> pyval \<Rightarrow> int \<Rightarrow> py_error + pynum" where
  "time_sec fl msg timestamp =
     (if py_hasattr msg ''header'' then
        (case py_getattr msg ''header'' of Inl e \<Rightarrow> Inl e | Inr header \<Rightarrow>
         case py_getattr header ''stamp'' of Inl e \<Rightarrow> Inl e | Inr stamp \<Rightarrow>
         case py_getattr stamp ''sec'' of Inl e \<Rightarrow> Inl e | Inr sec \<Rightarrow>
         case py_getattr stamp ''nanosec'' of Inl e \<Rightarrow> Inl e | Inr nanosec \<Rightarrow>
         case float_mul fl (f_nano fl) nanosec of Inl e \<Rightarrow> Inl e | Inr ns \<Rightarrow>
         add_float fl sec ns)
      else Inr (PyInt timestamp))"

text \<open>
  What the operating system does to the calls that write, by the place of the call in the
  pass: the error \<^verbatim>\<open>open\<close> of the file of a topic raises; the error raised by the
  \<^verbatim>\<open>print\<close> to the file of a topic that comes after \<open>n\<close> earlier ones; the error
  \<^verbatim>\<open>close\<close> of the file of a topic raises; the error raised by the \<^verbatim>\<open>print\<close> of the
  progress line at a message count. \<open>None\<close>: the call returns. A \<^verbatim>\<open>close\<close> that raises
  (the flush of what is buffered failed) has closed the file all the same.
\<close>

record io_env =
  open_error :: "string \<Rightarrow> py_error option"
  print_error :: "string \<Rightarrow> nat \<Rightarrow> py_error option"
  close_error :: "string \<Rightarrow> py_error option"
  console_error :: "nat \<Rightarrow> py_error option"

text \<open>
  An output file object: its name, the text of each \<^verbatim>\<open>print\<close> call to it that returned,
  in order, and whether it has been closed. How much of a \<^verbatim>\<open>print\<close> that raised reached
  the file is not modelled. \<open>append_line\<close> is the file object after a \<^verbatim>\<open>print\<close> that
  returned.
\<close>

record csv_file =
  filename :: string
  content :: "string list"
  closed :: bool

definition append_line :: "string \<Rightarrow> csv_file \<Rightarrow> csv_file" where
  "append_line line f = f\<lparr>content := content f @ [line]\<rparr>"

text \<open>
  The variables of the loop: \<^verbatim>\<open>file_map\<close> (a dict, in insertion order), \<^verbatim>\<open>start_time\<close>
  and \<^verbatim>\<open>msg_count\<close>.
\<close>

record dump_state =
  file_map :: "(string \<times> csv_file) list"
  start_time :: "pynum option"
  msg_count :: nat

text \<open>
  What \<^verbatim>\<open>reader.read_next()\<close> gives, with the outcome of lines 96 and 97 on it: the
  topic, the decoded message (or the error the decoding raises), the timestamp. A bag
  whose reader raises in \<^verbatim>\<open>has_next\<close> or \<^verbatim>\<open>read_next\<close> is the list of the messages read
  before, with one more that does not decode.
\<close>

type_synonym bag_msg = "string \<times> (py_error + pyval) \<times> int"

definition SKIP_TOPICS :: "string set" where
  "SKIP_TOPICS = {''/rosout'', ''/parameter_events''}"

definition lstrip_slash :: "string \<Rightarrow> string" where
  "lstrip_slash s = dropWhile (\<lambda>c. c = CHR ''/'') s"

definition replace_slash :: "string \<Rightarrow> string" where
  "replace_slash s = map (\<lambda>c. if c = CHR ''/'' then CHR ''_'' else c) s"

definition csv_filename :: "string \<Rightarrow> string \<Rightarrow> string" where
  "csv_filename output_path topic =
     output_path @ ''/'' @ replace_slash (lstrip_slash topic) @ ''.csv''"

definition header_fields :: "(string \<times> scalar) list \<Rightarrow> string list" where
  "header_fields fvs = [field. (field, val) \<leftarrow> fvs, \<not> startswith field ''header.'']"

definition row_values :: "float_ops \<Rightarrow> (string \<times> scalar) list \<Rightarrow> string list" where
  "row_values fl fvs = [py_str fl val. (field, val) \<leftarrow> fvs, \<not> startswith field ''header.'']"

definition header_line :: "(string \<times> scalar) list \<Rightarrow> string" where
  "header_line fvs = ''time,'' @ join '','' (header_fields fvs)"

definition row_line :: "float_ops \<Rightarrow> pynum \<Rightarrow> (string \<times> scalar) list \<Rightarrow> string" where
  "row_line fl relative_time fvs = join '','' (str_num fl relative_time # row_values fl fvs)"

text \<open>
  The outcome of one turn of the loop: the state to go on with, or the error raised,
  with the state at that moment and the file that was opened for a topic but not yet
  stored in \<^verbatim>\<open>file_map\<close>, if there is one.
\<close>

datatype step =
    Continue dump_state
  | Raised py_error dump_state "(string \<times> csv_file) option"

text \<open>
  Lines 100 to 107: the file and the header row of a topic seen for the first time.
  \<^verbatim>\<open>open\<close> may raise, then the flattening, then the \<^verbatim>\<open>print\<close> of the header.
\<close>

definition open_topic :: "io_env \<Rightarrow> string \<Rightarrow> dump_state \<Rightarrow> string \<Rightarrow> pyval \<Rightarrow> step" where
  "open_topic io output_path st topic msg =
     (if map_of (file_map st) topic \<noteq> None then Continue st
      else case open_error io topic of
        Some e \<Rightarrow> Raised e st None
      | None \<Rightarrow>
          let file = \<lparr>filename = csv_filename output_path topic, content = [], closed = False\<rparr>
          in case gen_msg_values msg [] of
               Inl e \<Rightarrow> Raised e st (Some (topic, file))
             | Inr fvs \<Rightarrow>
                 (case print_error io topic 0 of
                    Some e \<Rightarrow> Raised e st (Some (topic, file))
                  | None \<Rightarrow> Continue
                      (st\<lparr>file_map :=
                            file_map st @ [(topic, append_line (header_line fvs) file)]\<rparr>)))"

text \<open>
  A line printed to \<^verbatim>\<open>file_map[topic]\<close>; the key is there when this is reached, since
  \<open>open_topic\<close> has stored it. \<open>lines_printed\<close> is the number of lines printed to that
  file so far.
\<close>

definition print_to :: "string \<Rightarrow> string \<Rightarrow> (string \<times> csv_file) list \<Rightarrow> (string \<times> csv_file) list" where
  "print_to topic line fm = map (\<lambda>(t, f). if t = topic then (t, append_line line f) else (t, f)) fm"

definition lines_printed :: "(string \<times> csv_file) list \<Rightarrow> string \<Rightarrow> nat" where
  "lines_printed fm topic = (case map_of fm topic of Some f \<Rightarrow> length (content f) | None \<Rightarrow> 0)"

text \<open>
  Lines 109 to 127 when the two \<^verbatim>\<open>print\<close> calls return: the time of the message,
  \<^verbatim>\<open>start_time\<close> on the first message, the row, the count.
\<close>

definition write_row :: "float_ops \<Rightarrow> dump_state \<Rightarrow> string \<Rightarrow> pyval \<Rightarrow> int \<Rightarrow> step" where
  "write_row fl st topic msg timestamp =
     (case time_sec fl msg timestamp of
        Inl e \<Rightarrow> Raised e st None
      | Inr t \<Rightarrow>
          let start = (case start_time st of None \<Rightarrow> t | Some s \<Rightarrow> s);
              st1 = st\<lparr>start_time := Some start\<rparr>;
              relative_time = py_sub fl t start
          in case gen_msg_values msg [] of
               Inl e \<Rightarrow> Raised e st1 None
             | Inr fvs \<Rightarrow>
                 Continue (st1\<lparr>file_map := print_to topic (row_line fl relative_time fvs) (file_map st1),
                                msg_count := msg_count st1 + 1\<rparr>))"

text \<open>
  Lines 109 to 127 as they are. When the \<^verbatim>\<open>print\<close> of the row raises, \<^verbatim>\<open>start_time\<close>
  has been set, and the file and \<^verbatim>\<open>msg_count\<close> are as before. The progress line is
  printed on the console when \<^verbatim>\<open>msg_count\<close> is a multiple of 1000; when that raises,
  the row is in the file and \<^verbatim>\<open>msg_count\<close> is as before.
\<close>

definition write_row_io :: "io_env \<Rightarrow> float_ops \<Rightarrow> dump_state \<Rightarrow> string \<Rightarrow> pyval \<Rightarrow> int \<Rightarrow> step" where
  "write_row_io io fl st topic msg timestamp =
     (case write_row fl st topic msg timestamp of
        Raised e st' pending \<Rightarrow> Raised e st' pending
      | Continue st' \<Rightarrow>
          (case print_error io topic (lines_printed (file_map st) topic) of
             Some e \<Rightarrow> Raised e (st\<lparr>start_time := start_time st'\<rparr>) None
           | None \<Rightarrow>
               (case (if msg_count st mod 1000 = 0 then console_error io (msg_count st)
                      else None) of
                  Some e \<Rightarrow> Raised e (st'\<lparr>msg_count := msg_count st\<rparr>) None
                | None \<Rightarrow> Continue st')))"

text \<open>The body of the loop, lines 91 to 127, on one message.\<close>

fun process_msg :: "io_env \<Rightarrow> float_ops \<Rightarrow> string \<Rightarrow> dump_state \<Rightarrow> bag_msg \<Rightarrow> step" where
  "process_msg io fl output_path st (topic, data, timestamp) =
     (if topic \<in> SKIP_TOPICS then Continue st
      else case data of
        Inl e \<Rightarrow> Raised e st None
      | Inr msg \<Rightarrow>
          (case open_topic io output_path st topic msg of
             Raised e st' pending \<Rightarrow> Raised e st' pending
           | Continue st' \<Rightarrow> write_row_io io fl st' topic msg timestamp))"

text \<open>The loop \<^verbatim>\<open>while reader.has_next()\<close> over the messages of the bag, in order.\<close>

fun dump_loop :: "io_env \<Rightarrow> float_ops \<Rightarrow> string \<Rightarrow> dump_state \<Rightarrow> bag_msg list \<Rightarrow> step" where
  "dump_loop io fl output_path st [] = Continue st"
| "dump_loop io fl output_path st (m # ms) =
     (case process_msg io fl output_path st m of
        Raised e st' pending \<Rightarrow> Raised e st' pending
      | Continue st' \<Rightarrow> dump_loop io fl output_path st' ms)"

text \<open>
  Lines 130 and 131, \<^verbatim>\<open>for file in file_map.values(): file.close()\<close>: the files are closed
  in the order of \<^verbatim>\<open>file_map\<close>. A \<^verbatim>\<open>close\<close> that raises ends the loop: its file is
  closed and the files after it are as they were. The result is the files as the loop
  leaves them, and the error if one was raised.
\<close>

fun close_files :: "io_env \<Rightarrow> (string \<times> csv_file) list \<Rightarrow> (string \<times> csv_file) list \<times> py_error option" where
  "close_files io [] = ([], None)"
| "close_files io ((topic, f) # rest) =
     (case close_error io topic of
        Some e \<Rightarrow> ((topic, f\<lparr>closed := True\<rparr>) # rest, Some e)
      | None \<Rightarrow>
          (case close_files io rest of
             (rest', r) \<Rightarrow> ((topic, f\<lparr>closed := True\<rparr>) # rest', r)))"

text \<open>
  \<^verbatim>\<open>dump_bag\<close> on a bag whose reader opened and whose output directory was made: what
  it returns or raises, and every file object it opened (by topic, in the order of
  opening) as it is when the call ends. Only the normal end of the loop reaches the
  closing of the files.
\<close>

record dump_result =
  outcome :: "py_error + nat"
  files :: "(string \<times> csv_file) list"

definition init_state :: dump_state where
  "init_state = \<lparr>file_map = [], start_time = None, msg_count = 0\<rparr>"

definition dump_bag :: "io_env \<Rightarrow> float_ops \<Rightarrow> string \<Rightarrow> bag_msg list \<Rightarrow> dump_result" where
  "dump_bag io fl output_path msgs =
     (case dump_loop io fl output_path init_state msgs of
        Continue st \<Rightarrow>
          (case close_files io (file_map st) of
             (fs, None) \<Rightarrow> \<lparr>outcome = Inr (length (file_map st)), files = fs\<rparr>
           | (fs, Some e) \<Rightarrow> \<lparr>outcome = Inl e, files = fs\<rparr>)
      | Raised e st pending \<Rightarrow>
          \<lparr>outcome = Inl e,
           files = file_map st @ (case pending of None \<Rightarrow> [] | Some tf \<Rightarrow> [tf])\<rparr>)"

text \<open>
  The text a file object was given: its lines, each with the line end \<^verbatim>\<open>print\<close> adds.
  \<open>file_lines\<close> are the lines a reader of such a text sees: a line ends at a line feed,
  at a carriage return, or at the two together. \<open>file_text\<close> is the text of the file of
  a name after the call, where the model says what it is: the call has returned, so
  that every \<^verbatim>\<open>print\<close> and \<^verbatim>\<open>close\<close> went through, and one file object only was opened
  with that name (two topics with the same file name write over each other).
\<close>

definition stream :: "csv_file \<Rightarrow> string" where
  "stream f = concat (map (\<lambda>line. line @ [CHR 0x0A]) (content f))"

fun lines_from :: "string \<Rightarrow> string \<Rightarrow> string list" where
  "lines_from cur [] = (if cur = [] then [] else [cur])"
| "lines_from cur [c] = (if c = CHR 0x0A \<or> c = CHR 0x0D then [cur] else [cur @ [c]])"
| "lines_from cur (c # d # cs) =
     (if c = CHR 0x0A then cur # lines_from [] (d # cs)
      else if c = CHR 0x0D then
        (if d = CHR 0x0A then cur # lines_from [] cs else cur # lines_from [] (d # cs))
      else lines_from (cur @ [c]) (d # cs))"

definition file_lines :: "string \<Rightarrow> string list" where
  "file_lines text = lines_from [] text"

definition file_text :: "dump_result \<Rightarrow> string \<Rightarrow> string option" where
  "file_text r name =
     (case outcome r of
        Inl e \<Rightarrow> None
      | Inr n \<Rightarrow>
          (case filter (\<lambda>(t, f). filename f = name) (files r) of
             [(t, f)] \<Rightarrow> Some (stream f)
           | _ \<Rightarrow> None))"

text \<open>
  The number of columns a reader of the file sees in a line: the fields between commas
  (nothing is quoted). \<open>plain\<close>: a text with no comma and no line end in it.
\<close>

definition columns :: "string \<Rightarrow> nat" where
  "columns line = Suc (count_list line CHR '','')"

definition plain :: "string \<Rightarrow> bool" where
  "plain s = (CHR '','' \<notin> set s \<and> CHR 0x0A \<notin> set s \<and> CHR 0x0D \<notin> set s)"

section \<open>Directory orchestrator\<close>

text \<open>
  \<^verbatim>\<open>Path.mkdir(exist_ok=True)\<close>: nothing happens when the path is a directory already; an
  existing file of another kind raises; otherwise an empty directory is added to the
  parent, which has to be a directory. \<open>add_dir fs p name\<close> is the tree \<open>fs\<close> with the new
  entry \<open>name\<close> in the directory at \<open>p\<close>.
\<close>

fun add_dir :: "node \<Rightarrow> path \<Rightarrow> string \<Rightarrow> node" where
  "add_dir (Dir es) [] name = Dir (es @ [(name, Dir [])])"
| "add_dir (Dir es) (c # cs) name =
     Dir (map (\<lambda>(n, child). if n = c then (n, add_dir child cs name) else (n, child)) es)"
| "add_dir File p name = File"

definition mkdir_exist_ok :: "node \<Rightarrow> path \<Rightarrow> py_error + node" where
  "mkdir_exist_ok fs p =
     (case fs_lookup fs p of
        Some (Dir es) \<Rightarrow> Inr fs
      | Some File \<Rightarrow> Inl FileExistsError
      | None \<Rightarrow>
          (case fs_lookup fs (butlast p) of
             Some (Dir es) \<Rightarrow> Inr (add_dir fs (butlast p) (last p))
           | Some File \<Rightarrow> Inl NotADirectoryError
           | None \<Rightarrow> Inl FileNotFoundError))"

text \<open>\<^verbatim>\<open>Path(bag_path).relative_to(Path(root_path))\<close>, which raises when the bag is not below the root.\<close>

definition get_relative_structure :: "path \<Rightarrow> path \<Rightarrow> py_error + path" where
  "get_relative_structure bag_path root_path =
     (if prefix root_path bag_path then Inr (drop (length root_path) bag_path)
      else Inl ValueError)"

text \<open>
  The loop \<^verbatim>\<open>for bag_path in rosbags\<close> of \<^verbatim>\<open>process_structured_bags\<close> and of \<^verbatim>\<open>main\<close>.
  The parameter \<open>dump\<close> stands for \<^verbatim>\<open>process_single_bag\<close>, that is \<^verbatim>\<open>dump_bag\<close> on the bag
  read from \<open>bag_path\<close>: the count it returns or the error it raises. The result is the
  list of the calls made, each with its bag and its output directory, and how the loop
  ended.
\<close>

fun process_each ::
  "(path \<Rightarrow> path \<Rightarrow> py_error + nat) \<Rightarrow> path \<Rightarrow> path \<Rightarrow> path list
     \<Rightarrow> (path \<times> path) list \<times> (py_error + unit)" where
  "process_each dump root_dir csv_dir [] = ([], Inr ())"
| "process_each dump root_dir csv_dir (bag_path # rest) =
     (case get_relative_structure bag_path root_dir of
        Inl e \<Rightarrow> ([], Inl e)
      | Inr rel_path \<Rightarrow>
          (let output_path = csv_dir @ rel_path
           in case dump bag_path output_path of
                Inl e \<Rightarrow> ([(bag_path, output_path)], Inl e)
              | Inr n \<Rightarrow>
                  (case process_each dump root_dir csv_dir rest of
                     (calls, r) \<Rightarrow> ((bag_path, output_path) # calls, r))))"

text \<open>
  \<^verbatim>\<open>process_structured_bags\<close> and \<^verbatim>\<open>main\<close>: the tree as they leave it (the files the dumps
  write apart), the calls to \<^verbatim>\<open>process_single_bag\<close> in order, and the end: a normal
  return, \<^verbatim>\<open>sys.exit(1)\<close>, or an error.
\<close>

definition process_structured_bags ::
  "(path \<Rightarrow> path \<Rightarrow> py_error + nat) \<Rightarrow> node \<Rightarrow> path
     \<Rightarrow> node \<times> (path \<times> path) list \<times> (py_error + unit)" where
  "process_structured_bags dump fs input_root =
     (let ros2bag_dir = input_root @ [''ros2bag''];
          csv_dir = input_root @ [''csv'']
      in if \<not> path_exists fs ros2bag_dir then (fs, [], Inl (SystemExit 1))
         else case mkdir_exist_ok fs csv_dir of
                Inl e \<Rightarrow> (fs, [], Inl e)
              | Inr fs' \<Rightarrow>
                  (let rosbags = find_rosbags fs' ros2bag_dir
                   in if rosbags = [] then (fs', [], Inl (SystemExit 1))
                      else case process_each dump ros2bag_dir csv_dir rosbags of
                             (calls, r) \<Rightarrow> (fs', calls, r)))"

definition main ::
  "(path \<Rightarrow> path \<Rightarrow> py_error + nat) \<Rightarrow> node \<Rightarrow> path
     \<Rightarrow> node \<times> (path \<times> path) list \<times> (py_error + unit)" where
  "main dump fs input_path =
     (if \<not> path_exists fs input_path then (fs, [], Inl (SystemExit 1))
      else if \<not> is_dir fs input_path then (fs, [], Inl (SystemExit 1))
      else if is_rosbag_dir fs input_path then
        (case dump input_path input_path of
           Inl e \<Rightarrow> (fs, [(input_path, input_path)], Inl e)
         | Inr n \<Rightarrow> (fs, [(input_path, input_path)], Inr ()))
      else if path_exists fs (input_path @ [''ros2bag'']) then
        process_structured_bags dump fs input_path
      else
        (let rosbags = find_rosbags fs input_path
         in if rosbags \<noteq> [] then
              (let csv_dir = input_path @ [''csv'']
               in case mkdir_exist_ok fs csv_dir of
                    Inl e \<Rightarrow> (fs, [], Inl e)
                  | Inr fs' \<Rightarrow>
                      (case process_each dump input_path csv_dir rosbags of
                         (calls, r) \<Rightarrow> (fs', calls, r)))
            else (fs, [], Inl (SystemExit 1))))"

text \<open>The output directory that mirrors a bag: its path below the bag root, under the output root.\<close>

definition mirror :: "path \<Rightarrow> path \<Rightarrow> path \<Rightarrow> path \<times> path" where
  "mirror bag_root output_root bag_path =
     (bag_path, output_root @ drop (length bag_root) bag_path)"

section \<open>What a pass keeps true\<close>

text \<open>
  The state a step ends in, whether it goes on or raises, and the predicates the
  theorems on the loop are stated with. \<open>is_header_of\<close>: the line is the header row of
  some message of the topic in the bag; \<open>is_row_of\<close>: the line is the data row of some
  message of the topic in the bag, at the pass-wide start time.
\<close>

fun step_state :: "step \<Rightarrow> dump_state" where
  "step_state (Continue st) = st"
| "step_state (Raised e st pending) = st"

definition is_header_of :: "bag_msg list \<Rightarrow> string \<Rightarrow> string \<Rightarrow> bool" where
  "is_header_of M topic h =
     (\<exists>m ts fvs. (topic, Inr m, ts) \<in> set M \<and> gen_msg_values m [] = Inr fvs \<and> h = header_line fvs)"

definition is_row_of ::
  "float_ops \<Rightarrow> bag_msg list \<Rightarrow> pynum option \<Rightarrow> string \<Rightarrow> string \<Rightarrow> bool" where
  "is_row_of fl M start topic row =
     (\<exists>s m ts t fvs. start = Some s \<and> (topic, Inr m, ts) \<in> set M \<and> time_sec fl m ts = Inr t
        \<and> gen_msg_values m [] = Inr fvs \<and> row = row_line fl (py_sub fl t s) fvs)"

definition file_inv ::
  "float_ops \<Rightarrow> string \<Rightarrow> bag_msg list \<Rightarrow> pynum option \<Rightarrow> string \<Rightarrow> csv_file \<Rightarrow> bool" where
  "file_inv fl output_path M start topic f =
     (topic \<notin> SKIP_TOPICS \<and> filename f = csv_filename output_path topic \<and> \<not> closed f
      \<and> (\<exists>h rows. content f = h # rows \<and> is_header_of M topic h
            \<and> (\<forall>row \<in> set rows. is_row_of fl M start topic row)))"

definition pass_inv :: "float_ops \<Rightarrow> string \<Rightarrow> bag_msg list \<Rightarrow> dump_state \<Rightarrow> bool" where
  "pass_inv fl output_path M st =
     (distinct (map fst (file_map st))
      \<and> (\<forall>(topic, f) \<in> set (file_map st). file_inv fl output_path M (start_time st) topic f))"

definition step_inv :: "float_ops \<Rightarrow> string \<Rightarrow> bag_msg list \<Rightarrow> step \<Rightarrow> bool" where
  "step_inv fl output_path M r =
     (case r of
        Continue st \<Rightarrow> pass_inv fl output_path M st
      | Raised e st pending \<Rightarrow>
          pass_inv fl output_path M st
          \<and> (case pending of
                None \<Rightarrow> True
              | Some (topic, f) \<Rightarrow>
                  topic \<notin> SKIP_TOPICS \<and> topic \<notin> fst ` set (file_map st)
                  \<and> f = \<lparr>filename = csv_filename output_path topic, content = [], closed = False\<rparr>))"


text \<open>
  The flattenings of the messages of a topic, in bag order, and the precondition that
  every later one has the same set of field paths as the first.
\<close>

definition topic_flat :: "bag_msg list \<Rightarrow> string \<Rightarrow> (string \<times> scalar) list list" where
  "topic_flat msgs topic =
     [fvs. (t, d, ts) \<leftarrow> msgs, t = topic, Inr m \<leftarrow> [d], Inr fvs \<leftarrow> [gen_msg_values m []]]"

definition paths_stable :: "bag_msg list \<Rightarrow> string \<Rightarrow> bool" where
  "paths_stable msgs topic =
     (case topic_flat msgs topic of
        [] \<Rightarrow> True
      | first # later \<Rightarrow> \<forall>fvs \<in> set later. set (map fst fvs) = set (map fst first))"

text \<open>
  What every decoded ROS message satisfies: within one message the field names are
  distinct (they are the keys of a dict), none is empty, and none has a dot or an
  opening bracket in it (they are identifiers).
\<close>

fun wf_val :: "pyval \<Rightarrow> bool"
  and wf_vals :: "pyval list \<Rightarrow> bool"
  and wf_fields :: "(string \<times> string \<times> pyval) list \<Rightarrow> bool"
where
  "wf_val (Leaf v) = True"
| "wf_val (PyList xs) = wf_vals xs"
| "wf_val (Msg fs) = (distinct (map fst fs) \<and> wf_fields fs)"
| "wf_vals [] = True"
| "wf_vals (x # xs) = (wf_val x \<and> wf_vals xs)"
| "wf_fields [] = True"
| "wf_fields ((name, field_type, val) # rest) =
     (name \<noteq> [] \<and> CHR ''.'' \<notin> set name \<and> CHR ''['' \<notin> set name \<and> wf_val val \<and> wf_fields rest)"

definition wf_bag :: "bag_msg list \<Rightarrow> bool" where
  "wf_bag msgs = (\<forall>(topic, d, ts) \<in> set msgs. case d of Inr m \<Rightarrow> wf_val m | Inl e \<Rightarrow> True)"

text \<open>What follows a field name in a path: nothing, a dot or an index.\<close>

definition tail_like :: "string \<Rightarrow> bool" where
  "tail_like s = (s = [] \<or> hd s = CHR ''.'' \<or> hd s = CHR ''['')"

section \<open>Example inputs\<close>

text \<open>
  A bag directory, and a tree with a bag \<open>a/b\<close>, a bag \<open>a-b\<close> that holds one more bag
  inside, a directory with only the metadata file and an empty directory.
\<close>

definition bag_dir :: node where
  "bag_dir = Dir [(''metadata.yaml'', File), (''rec_0.db3'', File)]"

definition example_tree :: node where
  "example_tree =
     Dir [(''a-b'', Dir [(''metadata.yaml'', File), (''rec_0.db3'', File), (''inner'', bag_dir)]),
          (''a'', Dir [(''b'', bag_dir), (''notes.txt'', File)]),
          (''half'', Dir [(''metadata.yaml'', File)]),
          (''empty'', Dir [])]"

text \<open>A project in the structured layout, with three bags and no output directory yet.\<close>

definition project_tree :: node where
  "project_tree =
     Dir [(''ros2bag'',
            Dir [(''cfg1'', Dir [(''t1'', bag_dir), (''t2'', bag_dir)]),
                 (''cfg2'', Dir [(''t1'', bag_dir)])]),
          (''README'', File)]"

text \<open>
  Messages for the examples: one with a single integer field, one with a
  \<^verbatim>\<open>std_msgs/Header\<close> and a string field, one with no field at all
  (\<^verbatim>\<open>std_msgs/msg/Empty\<close>), one whose \<^verbatim>\<open>header\<close> is a plain string.
\<close>

definition msg_plain :: "int \<Rightarrow> pyval" where
  "msg_plain i = Msg [(''data'', ''int32'', Leaf (Num (PyInt i)))]"

definition msg_stamped :: "int \<Rightarrow> int \<Rightarrow> string \<Rightarrow> pyval" where
  "msg_stamped s n txt =
     Msg [(''header'', ''std_msgs/Header'',
             Msg [(''stamp'', ''builtin_interfaces/Time'',
                     Msg [(''sec'', ''int32'', Leaf (Num (PyInt s))),
                          (''nanosec'', ''uint32'', Leaf (Num (PyInt n)))]),
                  (''frame_id'', ''string'', Leaf (Str ''map''))]),
          (''data'', ''string'', Leaf (Str txt))]"

definition msg_empty :: pyval where
  "msg_empty = Msg []"


text \<open>
  No call fails. And the double operations on the operands the examples meet, with the
  results the machine gives (\<^verbatim>\<open>1e-9 * 500000000\<close> is \<^verbatim>\<open>0.5\<close>, \<^verbatim>\<open>2000000000 - 1.5\<close> is
  \<^verbatim>\<open>1999999998.5\<close>, all of them exact but for the product, which rounds to \<^verbatim>\<open>0.5\<close>);
  on other operands the table has NaN.
\<close>

definition no_failures :: io_env where
  "no_failures =
     \<lparr>open_error = (\<lambda>topic. None), print_error = (\<lambda>topic n. None),
      close_error = (\<lambda>topic. None), console_error = (\<lambda>n. None)\<rparr>"

text \<open>The same, but that one call fails: the \<^verbatim>\<open>close\<close> of the file of a topic, or a \<^verbatim>\<open>print\<close> to it.\<close>

definition failing_close :: "string \<Rightarrow> io_env" where
  "failing_close topic =
     no_failures\<lparr>close_error := (\<lambda>t. if t = topic then Some OSError else None)\<rparr>"

definition failing_print :: "string \<Rightarrow> nat \<Rightarrow> io_env" where
  "failing_print topic n =
     no_failures\<lparr>print_error := (\<lambda>t k. if t = topic \<and> k = n then Some OSError else None)\<rparr>"

definition nano :: double where
  "nano = Finite (4835703278458517 / 2 ^ 82)"

definition example_floats :: float_ops where
  "example_floats =
     \<lparr>f_of_int = (\<lambda>i. Finite (of_int i)),
      f_nano = nano,
      f_mul = (\<lambda>x y. if x = nano \<and> y = Finite 500000000 then Finite (1 / 2)
                     else if x = nano \<and> y = Finite 0 then Finite 0 else NaN),
      f_add = (\<lambda>x y. if x = Finite 1 \<and> y = Finite (1 / 2) then Finite (3 / 2)
                     else if x = Finite 3 \<and> y = Finite 0 then Finite 3 else NaN),
      f_sub = (\<lambda>x y. if x = Finite (3 / 2) \<and> y = Finite (3 / 2) then Finite 0
                     else if x = Finite 3 \<and> y = Finite (3 / 2) then Finite (3 / 2)
                     else if x = Finite 2000000000 \<and> y = Finite (3 / 2)
                       then Finite (3999999997 / 2)
                     else NaN),
      f_repr = (\<lambda>x. if x = Finite 0 then ''0.0''
                    else if x = Finite (3 / 2) then ''1.5''
                    else if x = Finite (3999999997 / 2) then ''1999999998.5''
                    else ''nan'')\<rparr>"

text \<open>
  A bag: a message of a skipped topic that does not decode, then two topics, the first
  with headers and the second without. \<open>msg_text\<close> is a message with one string field.
\<close>

definition example_bag :: "bag_msg list" where
  "example_bag =
     [(''/rosout'', Inl DecodeError, 1),
      (''/a'', Inr (msg_stamped 1 500000000 ''x''), 1000),
      (''/b'', Inr (msg_plain 7), 2000000000),
      (''/a'', Inr (msg_stamped 3 0 ''y''), 1500)]"

definition msg_text :: "string \<Rightarrow> pyval" where
  "msg_text txt = Msg [(''data'', ''string'', Leaf (Str txt))]"

section \<open>Flattening a nested pose\<close>

text \<open>
  C2. For a decoded message of the shape \<open>{pose: {position: {x, y, z}}}\<close>, none of
  whose field types is a \<^verbatim>\<open>sequence<\<close> type, the flattener yields exactly the three
  pairs \<open>pose.position.x\<close>, \<open>pose.position.y\<close>, \<open>pose.position.z\<close> with their values, in
  the declared field order, the paths being the enclosing field names joined by dots.
\<close>

theorem flatten_nested_pose:
  assumes "\<not> startswith t1 ''sequence<''" and "\<not> startswith t2 ''sequence<''"
    and "\<not> startswith tx ''sequence<''" and "\<not> startswith ty ''sequence<''"
    and "\<not> startswith tz ''sequence<''"
  shows "gen_msg_values
           (Msg [(''pose'', t1,
              Msg [(''position'', t2,
                Msg [(''x'', tx, Leaf vx), (''y'', ty, Leaf vy), (''z'', tz, Leaf vz)])])]) ''''
         = Inr [(''pose.position.x'', vx), (''pose.position.y'', vy), (''pose.position.z'', vz)]"
  using assms by simp

theorem flatten_nested_pose_witness:
  "gen_msg_values
     (Msg [(''pose'', ''geometry_msgs/Pose'',
        Msg [(''position'', ''geometry_msgs/Point'',
          Msg [(''x'', ''double'', Leaf (Num (PyInt 1))),
               (''y'', ''double'', Leaf (Num (PyInt 2))),
               (''z'', ''double'', Leaf (Num (PyInt 3)))])])]) ''''
   = Inr [(''pose.position.x'', Num (PyInt 1)),
          (''pose.position.y'', Num (PyInt 2)),
          (''pose.position.z'', Num (PyInt 3))]"
  by (rule flatten_nested_pose) (simp_all add: startswith_def)

section \<open>The bag predicate\<close>

lemma fs_lookup_append:
  "fs_lookup n (p @ q) = (case fs_lookup n p of None \<Rightarrow> None | Some m \<Rightarrow> fs_lookup m q)"
  by (induction n p rule: fs_lookup.induct) (auto split: option.splits)

lemma fs_lookup_child:
  "fs_lookup fs p = Some (Dir es) \<Longrightarrow> fs_lookup fs (p @ [n]) = map_of es n"
  by (simp add: fs_lookup_append split: option.splits)

lemma map_of_Some_iff: "(\<exists>y. map_of es n = Some y) = (n \<in> fst ` set es)"
  using map_of_eq_None_iff[of es n] by auto

lemma is_rosbag_dir_iff:
  "is_rosbag_dir fs p \<longleftrightarrow>
     (\<exists>es. fs_lookup fs p = Some (Dir es) \<and> ''metadata.yaml'' \<in> fst ` set es
           \<and> (\<exists>n \<in> fst ` set es. endswith n ''.db3''))"
proof (cases "fs_lookup fs p")
  case None
  then show ?thesis by (simp add: is_rosbag_dir_def is_dir_def)
next
  case (Some n)
  show ?thesis
  proof (cases n)
    case File
    with Some show ?thesis by (simp add: is_rosbag_dir_def is_dir_def)
  next
    case (Dir es)
    with Some have l: "fs_lookup fs p = Some (Dir es)" by simp
    have g: "(glob_db3 fs p \<noteq> []) = (\<exists>n \<in> fst ` set es. endswith n ''.db3'')"
      using l by (auto simp: glob_db3_def listdir_def filter_empty_conv concat_eq_Nil_conv)
    show ?thesis
      using l g
      by (simp add: is_rosbag_dir_def is_dir_def path_exists_def fs_lookup_child map_of_Some_iff)
  qed
qed

text \<open>
  C4. \<open>is_rosbag_dir\<close> holds of a path exactly when the path is a directory whose own
  entries include one named \<open>metadata.yaml\<close> and at least one whose name ends in
  \<open>.db3\<close>; it is false of what is not a directory, of an empty directory, and of a
  directory with only one of the two markers. (The code tests the entries by name with
  \<^verbatim>\<open>exists\<close> and \<^verbatim>\<open>glob\<close>: an entry is a file of any kind.)
\<close>

theorem is_rosbag_dir_markers:
  "(is_rosbag_dir fs p \<longleftrightarrow>
      (\<exists>es. fs_lookup fs p = Some (Dir es) \<and> ''metadata.yaml'' \<in> fst ` set es
            \<and> (\<exists>n \<in> fst ` set es. endswith n ''.db3'')))
   \<and> (\<not> is_dir fs p \<longrightarrow> \<not> is_rosbag_dir fs p)
   \<and> (fs_lookup fs p = Some (Dir []) \<longrightarrow> \<not> is_rosbag_dir fs p)
   \<and> (fs_lookup fs p = Some (Dir es) \<and> ''metadata.yaml'' \<notin> fst ` set es
        \<longrightarrow> \<not> is_rosbag_dir fs p)
   \<and> (fs_lookup fs p = Some (Dir es) \<and> (\<forall>n \<in> fst ` set es. \<not> endswith n ''.db3'')
        \<longrightarrow> \<not> is_rosbag_dir fs p)"
proof -
  have "\<not> is_dir fs p \<longrightarrow> \<not> is_rosbag_dir fs p"
    by (simp add: is_rosbag_dir_def)
  moreover have "fs_lookup fs p = Some (Dir []) \<longrightarrow> \<not> is_rosbag_dir fs p"
    by (simp add: is_rosbag_dir_iff)
  moreover have "fs_lookup fs p = Some (Dir es) \<and> ''metadata.yaml'' \<notin> fst ` set es
      \<longrightarrow> \<not> is_rosbag_dir fs p"
    by (auto simp: is_rosbag_dir_iff)
  moreover have "fs_lookup fs p = Some (Dir es) \<and> (\<forall>n \<in> fst ` set es. \<not> endswith n ''.db3'')
      \<longrightarrow> \<not> is_rosbag_dir fs p"
    by (auto simp: is_rosbag_dir_iff)
  ultimately show ?thesis
    using is_rosbag_dir_iff[of fs p] by blast
qed

theorem is_rosbag_dir_markers_witness:
  "is_rosbag_dir example_tree [''a'', ''b'']
   \<and> \<not> is_rosbag_dir example_tree [''a'', ''notes.txt'']
   \<and> \<not> is_rosbag_dir example_tree [''empty'']
   \<and> \<not> is_rosbag_dir example_tree [''half'']"
proof -
  have e: "fs_lookup example_tree [''empty''] = Some (Dir [])"
    by (simp add: example_tree_def)
  have h: "fs_lookup example_tree [''half''] = Some (Dir [(''metadata.yaml'', File)])
      \<and> (\<forall>n \<in> fst ` set [(''metadata.yaml'', File)]. \<not> endswith n ''.db3'')"
    by (simp add: example_tree_def endswith_def)
  have n: "\<not> is_dir example_tree [''a'', ''notes.txt'']"
    by (simp add: example_tree_def is_dir_def)
  have b: "\<exists>es. fs_lookup example_tree [''a'', ''b''] = Some (Dir es)
      \<and> ''metadata.yaml'' \<in> fst ` set es \<and> (\<exists>n \<in> fst ` set es. endswith n ''.db3'')"
    by (simp add: example_tree_def bag_dir_def endswith_def)
  have 1: "is_rosbag_dir example_tree [''a'', ''b'']"
    using is_rosbag_dir_markers[of example_tree "[''a'', ''b'']" "[]", THEN conjunct1] b
    by (rule iffD2)
  have 2: "\<not> is_rosbag_dir example_tree [''a'', ''notes.txt'']"
    using is_rosbag_dir_markers[of example_tree "[''a'', ''notes.txt'']" "[]",
        THEN conjunct2, THEN conjunct1] n
    by (rule mp)
  have 3: "\<not> is_rosbag_dir example_tree [''empty'']"
    using is_rosbag_dir_markers[of example_tree "[''empty'']" "[]",
        THEN conjunct2, THEN conjunct2, THEN conjunct1] e
    by (rule mp)
  have 4: "\<not> is_rosbag_dir example_tree [''half'']"
    using is_rosbag_dir_markers[of example_tree "[''half'']" "[(''metadata.yaml'', File)]",
        THEN conjunct2, THEN conjunct2, THEN conjunct2, THEN conjunct2] h
    by (rule mp)
  show ?thesis by (intro conjI; fact)
qed

section \<open>Pruning and order of the bags found\<close>

lemma walk_prefix:
  "q \<in> set (walk_bags fs p n) \<Longrightarrow> prefix p q"
  "q \<in> set (walk_subdirs fs p es) \<Longrightarrow> \<exists>name \<in> fst ` set es. prefix (p @ [name]) q"
proof (induction fs p n and fs p es arbitrary: q and q rule: walk_bags_walk_subdirs.induct)
  case (4 fs dirpath name child rest)
  then show ?case by auto
qed (auto split: if_splits dest: append_prefixD)

lemma walk_unnested:
  "wf_node n \<Longrightarrow> a \<in> set (walk_bags fs p n) \<Longrightarrow> b \<in> set (walk_bags fs p n)
    \<Longrightarrow> \<not> strict_prefix a b"
  "wf_entries es \<Longrightarrow> distinct (map fst es) \<Longrightarrow> a \<in> set (walk_subdirs fs p es)
    \<Longrightarrow> b \<in> set (walk_subdirs fs p es) \<Longrightarrow> \<not> strict_prefix a b"
proof (induction fs p n and fs p es arbitrary: a b and a b rule: walk_bags_walk_subdirs.induct)
  case (1 fs dirpath)
  then show ?case by simp
next
  case (2 fs dirpath es)
  then show ?case by (auto split: if_splits)
next
  case (3 fs dirpath)
  then show ?case by simp
next
  case (4 fs dirpath name child rest)
  have apart: False
    if "x \<in> set (walk_bags fs (dirpath @ [name]) child)"
      and "y \<in> set (walk_subdirs fs dirpath rest)"
      and "prefix x y \<or> prefix y x" for x y
  proof -
    from that(1) have px: "prefix (dirpath @ [name]) x" by (rule walk_prefix(1))
    from that(2) obtain name' where n': "name' \<in> fst ` set rest" "prefix (dirpath @ [name']) y"
      using walk_prefix(2) by blast
    from 4(4) n'(1) have ne: "name' \<noteq> name" by auto
    from that(3) px n'(2)
    have "prefix (dirpath @ [name]) y \<and> prefix (dirpath @ [name']) y
        \<or> prefix (dirpath @ [name]) x \<and> prefix (dirpath @ [name']) x"
      using prefix_order.trans by blast
    then show False using ne by (auto simp: prefix_def)
  qed
  from 4(5,6) consider
      "a \<in> set (walk_bags fs (dirpath @ [name]) child)"
      "b \<in> set (walk_bags fs (dirpath @ [name]) child)"
    | "a \<in> set (walk_subdirs fs dirpath rest)" "b \<in> set (walk_subdirs fs dirpath rest)"
    | "a \<in> set (walk_bags fs (dirpath @ [name]) child)" "b \<in> set (walk_subdirs fs dirpath rest)"
    | "b \<in> set (walk_bags fs (dirpath @ [name]) child)" "a \<in> set (walk_subdirs fs dirpath rest)"
    by auto
  then show ?case
  proof cases
    case 1 with 4 show ?thesis by simp
  next
    case 2 with 4 show ?thesis by simp
  next
    case 3 then show ?thesis using apart[of a b] by (auto simp: strict_prefix_def)
  next
    case 4 then show ?thesis using apart[of b a] by (auto simp: strict_prefix_def)
  qed
qed

lemma wf_map_of: "wf_entries es \<Longrightarrow> map_of es c = Some child \<Longrightarrow> wf_node child"
  by (induction es) (auto split: if_splits)

lemma wf_lookup: "wf_node fs \<Longrightarrow> fs_lookup fs p = Some n \<Longrightarrow> wf_node n"
proof (induction fs p rule: fs_lookup.induct)
  case (1 n)
  then show ?case by simp
next
  case (2 c cs)
  then show ?case by simp
next
  case (3 es c cs)
  from 3(3) obtain child where c: "map_of es c = Some child" "fs_lookup child cs = Some n"
    by (auto split: option.splits)
  from 3(2) have "wf_entries es" by simp
  then have "wf_node child" using c(1) by (rule wf_map_of)
  then show ?case using 3(1) c by simp
qed

lemmas fs_eval = find_rosbags_def is_rosbag_dir_def is_dir_def path_exists_def glob_db3_def
  listdir_def endswith_def example_tree_def bag_dir_def

lemma example_tree_bags: "find_rosbags example_tree [] = [[''a'', ''b''], [''a-b'']]"
  by (simp add: fs_eval)

text \<open>
  C5. In a directory tree (the names within a directory distinct), no path that
  \<open>find_rosbags\<close> returns is a strict descendant of another returned path: below a
  directory that is a bag nothing is visited.
\<close>

theorem find_rosbags_unnested:
  assumes "wf_node fs"
    and "p \<in> set (find_rosbags fs root_path)"
    and "q \<in> set (find_rosbags fs root_path)"
  shows "\<not> strict_prefix p q"
proof (cases "fs_lookup fs root_path")
  case None
  with assms show ?thesis by (simp add: find_rosbags_def)
next
  case (Some n)
  with assms(1) have "wf_node n" by (rule wf_lookup)
  with assms(2,3) Some show ?thesis
    by (auto simp: find_rosbags_def dest: walk_unnested(1))
qed

theorem find_rosbags_unnested_witness:
  "wf_node example_tree
   \<and> [''a-b''] \<in> set (find_rosbags example_tree [])
   \<and> [''a'', ''b''] \<in> set (find_rosbags example_tree [])
   \<and> [''a-b'', ''inner''] \<notin> set (find_rosbags example_tree [])
   \<and> \<not> strict_prefix [''a-b''] [''a'', ''b'']"
proof -
  have w: "wf_node example_tree" by (simp add: example_tree_def bag_dir_def)
  have p: "[''a-b''] \<in> set (find_rosbags example_tree [])"
    and q: "[''a'', ''b''] \<in> set (find_rosbags example_tree [])"
    and r: "[''a-b'', ''inner''] \<notin> set (find_rosbags example_tree [])"
    by (simp_all add: example_tree_bags)
  from find_rosbags_unnested[OF w p q] w p q r show ?thesis by blast
qed

lemma path_less_lexord:
  "((p::path) < q) = ((p, q) \<in> lexord (lexord {(c, d). (of_char c :: nat) < of_char d}))"
proof -
  have "{(u::string, v). u < v} = lexord {(c, d). (of_char c :: nat) < of_char d}"
    by (auto simp: list_less_def less_char_def)
  then show ?thesis by (simp add: list_less_def)
qed

text \<open>
  C6. The list \<open>find_rosbags\<close> returns is in ascending lexicographic order of the paths:
  a path is compared as the list of its components, a component as the list of its
  characters, a character by its code. The list holds exactly the bag directories the
  walk found.
\<close>

theorem find_rosbags_sorted:
  "sorted_wrt (\<lambda>p q. p = q \<or> (p, q) \<in> lexord (lexord {(c, d). (of_char c :: nat) < of_char d}))
     (find_rosbags fs root_path)
   \<and> mset (find_rosbags fs root_path) =
       mset (case fs_lookup fs root_path of Some n \<Rightarrow> walk_bags fs root_path n | None \<Rightarrow> [])"
proof -
  have "sorted (find_rosbags fs root_path)" by (simp add: find_rosbags_def)
  then have "sorted_wrt (\<lambda>p q. p = q \<or> p < q) (find_rosbags fs root_path)"
    by (rule sorted_wrt_mono_rel[rotated]) auto
  then show ?thesis by (simp add: path_less_lexord find_rosbags_def)
qed

theorem find_rosbags_sorted_witness:
  "find_rosbags example_tree [] = [[''a'', ''b''], [''a-b'']]
   \<and> ([''a'', ''b''], [''a-b'']) \<in> lexord (lexord {(c, d). (of_char c :: nat) < of_char d})"
proof -
  have "[''a'', ''b''] \<noteq> [''a-b'']" by simp
  with find_rosbags_sorted[of example_tree "[]"] show ?thesis
    by (simp add: example_tree_bags)
qed

section \<open>The loop keeps its files in order\<close>

lemma print_to_keys [simp]: "map fst (print_to topic line fm) = map fst fm"
  by (induction fm) (auto simp: print_to_def)

lemma file_inv_start:
  assumes "file_inv fl out M start T f" and "start = None \<or> start' = start"
  shows "file_inv fl out M start' T f"
proof -
  from assms(1) obtain h rows where c: "content f = h # rows" "is_header_of M T h"
    "\<forall>row \<in> set rows. is_row_of fl M start T row"
    and b: "T \<notin> SKIP_TOPICS" "filename f = csv_filename out T" "\<not> closed f"
    unfolding file_inv_def by blast
  have "\<forall>row \<in> set rows. is_row_of fl M start' T row"
  proof
    fix row assume r: "row \<in> set rows"
    with c(3) have ir: "is_row_of fl M start T row" by blast
    then have "start \<noteq> None" by (auto simp: is_row_of_def)
    with assms(2) have "start' = start" by blast
    with ir show "is_row_of fl M start' T row" by simp
  qed
  with c b show ?thesis unfolding file_inv_def by blast
qed

lemma file_inv_print:
  assumes "file_inv fl out M start T f" and "is_row_of fl M start T line"
  shows "file_inv fl out M start T (append_line line f)"
proof -
  from assms(1) obtain h rows where c: "content f = h # rows" "is_header_of M T h"
    "\<forall>row \<in> set rows. is_row_of fl M start T row"
    and b: "T \<notin> SKIP_TOPICS" "filename f = csv_filename out T" "\<not> closed f"
    unfolding file_inv_def by blast
  have "content (append_line line f) = h # (rows @ [line])"
    using c(1) by (simp add: append_line_def)
  moreover have "\<forall>row \<in> set (rows @ [line]). is_row_of fl M start T row"
    using c(3) assms(2) by auto
  ultimately show ?thesis
    using c(2) b unfolding file_inv_def by (auto simp: append_line_def)
qed

lemma map_of_None_keys: "(map_of fm T = None) = (T \<notin> fst ` set fm)"
  by (simp add: map_of_eq_None_iff)

lemma open_topic_inv:
  assumes "pass_inv fl out M st" and "T \<notin> SKIP_TOPICS" and "(T, Inr m, ts) \<in> set M"
  shows "step_inv fl out M (open_topic io out st T m)"
proof (cases "map_of (file_map st) T")
  case (Some f)
  with assms(1) show ?thesis by (simp add: open_topic_def step_inv_def)
next
  case None
  then have nk: "T \<notin> fst ` set (file_map st)" by (simp add: map_of_None_keys)
  show ?thesis
  proof (cases "open_error io T")
    case (Some e)
    with None assms(1) show ?thesis by (simp add: open_topic_def step_inv_def)
  next
    case op: None
    show ?thesis
    proof (cases "gen_msg_values m []")
      case (Inl e)
      with None op nk assms show ?thesis by (simp add: open_topic_def step_inv_def)
    next
      case (Inr fvs)
      show ?thesis
      proof (cases "print_error io T 0")
        case (Some e)
        with None op Inr nk assms show ?thesis by (simp add: open_topic_def step_inv_def)
      next
        case pr: None
        let ?f = "\<lparr>filename = csv_filename out T, content = [header_line fvs], closed = False\<rparr>"
        have "is_header_of M T (header_line fvs)"
          using assms(3) Inr unfolding is_header_of_def by blast
        then have fi: "file_inv fl out M (start_time st) T ?f"
          using assms(2) by (simp add: file_inv_def)
        have "pass_inv fl out M (st\<lparr>file_map := file_map st @ [(T, ?f)]\<rparr>)"
          using assms(1) nk fi by (auto simp: pass_inv_def)
        with None op Inr pr show ?thesis
          by (simp add: open_topic_def step_inv_def append_line_def)
      qed
    qed
  qed
qed

lemma open_topic_Continue:
  assumes "open_topic io out st T m = Continue st'"
  shows "fst ` set (file_map st') = insert T (fst ` set (file_map st))
    \<and> start_time st' = start_time st \<and> msg_count st' = msg_count st"
proof (cases "map_of (file_map st) T")
  case (Some f)
  then have "T \<in> fst ` set (file_map st)" by (auto dest!: map_of_SomeD intro: rev_image_eqI)
  with Some assms show ?thesis by (auto simp: open_topic_def)
next
  case None
  with assms show ?thesis
    by (auto simp: open_topic_def Let_def split: sum.splits option.splits)
qed

lemma print_to_inv:
  assumes "\<forall>(T', f) \<in> set fm. file_inv fl out M start T' f" and "is_row_of fl M start T line"
  shows "\<forall>(T', f) \<in> set (print_to T line fm). file_inv fl out M start T' f"
  using assms by (fastforce simp: print_to_def intro: file_inv_print split: if_splits)

lemma write_row_inv:
  assumes "pass_inv fl out M st" and "(T, Inr m, ts) \<in> set M"
  shows "step_inv fl out M (write_row fl st T m ts)"
proof (cases "time_sec fl m ts")
  case (Inl e)
  with assms(1) show ?thesis by (simp add: write_row_def step_inv_def)
next
  case (Inr t)
  define start where "start = (case start_time st of None \<Rightarrow> t | Some s \<Rightarrow> s)"
  have s: "start_time st = None \<or> Some start = start_time st"
    by (auto simp: start_def split: option.splits)
  have p1: "\<forall>(T', f) \<in> set (file_map st). file_inv fl out M (Some start) T' f"
    using assms(1) s by (auto simp: pass_inv_def intro: file_inv_start)
  have d: "distinct (map fst (file_map st))" using assms(1) by (simp add: pass_inv_def)
  show ?thesis
  proof (cases "gen_msg_values m []")
    case (Inl e)
    have "pass_inv fl out M (st\<lparr>start_time := Some start\<rparr>)"
      using p1 d by (simp add: pass_inv_def)
    with Inr Inl show ?thesis
      by (simp add: write_row_def step_inv_def start_def Let_def)
  next
    case fv: (Inr fvs)
    have "is_row_of fl M (Some start) T (row_line fl (py_sub fl t start) fvs)"
      unfolding is_row_of_def using assms(2) Inr fv by blast
    with p1 have "\<forall>(T', f) \<in> set (print_to T (row_line fl (py_sub fl t start) fvs) (file_map st)).
        file_inv fl out M (Some start) T' f"
      by (rule print_to_inv)
    then have "pass_inv fl out M (st\<lparr>start_time := Some start,
        file_map := print_to T (row_line fl (py_sub fl t start) fvs) (file_map st),
        msg_count := msg_count st + 1\<rparr>)"
      using d by (simp add: pass_inv_def)
    with Inr fv show ?thesis
      by (simp add: write_row_def step_inv_def start_def Let_def)
  qed
qed

lemma write_row_Continue:
  assumes "write_row fl st T m ts = Continue st'"
  shows "fst ` set (file_map st') = fst ` set (file_map st)"
proof -
  have "map fst (file_map st') = map fst (file_map st)"
    using assms by (auto simp: write_row_def Let_def split: sum.splits)
  then have "set (map fst (file_map st')) = set (map fst (file_map st))" by simp
  then show ?thesis by simp
qed

lemma write_row_io_inv:
  assumes "pass_inv fl out M st" and "(T, Inr m, ts) \<in> set M"
  shows "step_inv fl out M (write_row_io io fl st T m ts)"
proof (cases "write_row fl st T m ts")
  case (Raised e st' p)
  with write_row_inv[OF assms] show ?thesis by (simp add: write_row_io_def)
next
  case (Continue st')
  with write_row_inv[OF assms] have p': "pass_inv fl out M st'" by (simp add: step_inv_def)
  from Continue have s: "start_time st = None \<or> start_time st' = start_time st"
    by (auto simp: write_row_def Let_def split: sum.splits option.splits)
  have p1: "pass_inv fl out M (st\<lparr>start_time := start_time st'\<rparr>)"
    using assms(1) s by (auto simp: pass_inv_def intro: file_inv_start)
  have p2: "pass_inv fl out M (st'\<lparr>msg_count := msg_count st\<rparr>)"
    using p' by (simp add: pass_inv_def)
  show ?thesis
    using Continue p' p1 p2 by (simp add: write_row_io_def step_inv_def split: option.splits)
qed

lemma write_row_io_Continue:
  assumes "write_row_io io fl st T m ts = Continue st'"
  shows "write_row fl st T m ts = Continue st'"
  using assms by (auto simp: write_row_io_def split: step.splits option.splits if_splits)

lemma process_msg_inv:
  assumes "pass_inv fl out M st" and "m \<in> set M"
  shows "step_inv fl out M (process_msg io fl out st m)"
proof -
  obtain T d ts where m: "m = (T, d, ts)" by (cases m) auto
  show ?thesis
  proof (cases "T \<in> SKIP_TOPICS")
    case True
    with assms(1) m show ?thesis by (simp add: step_inv_def)
  next
    case False
    show ?thesis
    proof (cases d)
      case (Inl e)
      with False assms(1) m show ?thesis by (simp add: step_inv_def)
    next
      case (Inr msg)
      with m assms(2) have mem: "(T, Inr msg, ts) \<in> set M" by simp
      have o: "step_inv fl out M (open_topic io out st T msg)"
        using assms(1) False mem by (rule open_topic_inv)
      show ?thesis
      proof (cases "open_topic io out st T msg")
        case (Continue st')
        with o have "pass_inv fl out M st'" by (simp add: step_inv_def)
        then have "step_inv fl out M (write_row_io io fl st' T msg ts)"
          using mem by (rule write_row_io_inv)
        with m False Inr Continue show ?thesis by simp
      next
        case (Raised e st' p)
        with o m False Inr show ?thesis by simp
      qed
    qed
  qed
qed

lemma process_msg_keys:
  assumes "process_msg io fl out st (T, d, ts) = Continue st'"
  shows "fst ` set (file_map st') =
    (if T \<in> SKIP_TOPICS then fst ` set (file_map st) else insert T (fst ` set (file_map st)))"
proof (cases "T \<in> SKIP_TOPICS")
  case True
  with assms show ?thesis by simp
next
  case False
  with assms obtain msg st1 where d: "d = Inr msg"
    and o: "open_topic io out st T msg = Continue st1"
    and w: "write_row_io io fl st1 T msg ts = Continue st'"
    by (auto split: sum.splits step.splits)
  from open_topic_Continue[OF o] write_row_Continue[OF write_row_io_Continue[OF w]] False
  show ?thesis by simp
qed

lemma dump_loop_inv:
  "pass_inv fl out M st \<Longrightarrow> set ms \<subseteq> set M \<Longrightarrow> step_inv fl out M (dump_loop io fl out st ms)"
proof (induction ms arbitrary: st)
  case Nil
  then show ?case by (simp add: step_inv_def)
next
  case (Cons m ms)
  then have "step_inv fl out M (process_msg io fl out st m)"
    by (simp add: process_msg_inv)
  then show ?case
    using Cons by (cases "process_msg io fl out st m") (simp_all add: step_inv_def)
qed

lemma dump_loop_keys:
  "dump_loop io fl out st ms = Continue st' \<Longrightarrow>
   fst ` set (file_map st') = fst ` set (file_map st) \<union> {t \<in> fst ` set ms. t \<notin> SKIP_TOPICS}"
proof (induction ms arbitrary: st)
  case Nil
  then show ?case by simp
next
  case (Cons m ms)
  obtain T d ts where m: "m = (T, d, ts)" by (cases m) auto
  from Cons.prems obtain st1 where p: "process_msg io fl out st (T, d, ts) = Continue st1"
    and l: "dump_loop io fl out st1 ms = Continue st'"
    unfolding m by (auto split: step.splits)
  from Cons.IH[OF l] process_msg_keys[OF p] m show ?case by auto
qed

lemma init_inv: "pass_inv fl out M init_state"
  by (simp add: pass_inv_def init_state_def)

lemma dump_loop_init_inv: "step_inv fl out msgs (dump_loop io fl out init_state msgs)"
  by (rule dump_loop_inv[OF init_inv]) simp

lemma dump_loop_skip:
  "dump_loop io fl out st (filter (\<lambda>m. fst m \<notin> SKIP_TOPICS) ms) = dump_loop io fl out st ms"
proof (induction ms arbitrary: st)
  case Nil
  then show ?case by simp
next
  case (Cons m ms)
  obtain T d ts where m: "m = (T, d, ts)" by (cases m) auto
  show ?case
  proof (cases "T \<in> SKIP_TOPICS")
    case True
    with Cons m show ?thesis by simp
  next
    case False
    with Cons m show ?thesis by (simp split: step.splits)
  qed
qed

lemmas dump_eval = dump_bag_def init_state_def open_topic_def write_row_def write_row_io_def
  lines_printed_def SKIP_TOPICS_def time_sec_def py_hasattr_def header_line_def row_line_def
  header_fields_def row_values_def startswith_def append_line_def print_to_def csv_filename_def
  lstrip_slash_def replace_slash_def no_failures_def str_int_def str_nat.simps Let_def

section \<open>Closing the output files\<close>

lemma close_files_ok:
  "\<forall>u \<in> fst ` set fm. close_error io u = None \<Longrightarrow>
   close_files io fm = (map (\<lambda>(u, g). (u, g\<lparr>closed := True\<rparr>)) fm, None)"
  by (induction fm) auto

lemma close_files_stops:
  "\<forall>u \<in> fst ` set pre. close_error io u = None \<Longrightarrow> close_error io t = Some e \<Longrightarrow>
   close_files io (pre @ (t, f) # post) =
     (map (\<lambda>(u, g). (u, g\<lparr>closed := True\<rparr>)) pre @ (t, f\<lparr>closed := True\<rparr>) # post, Some e)"
  by (induction pre) auto

lemma close_files_None:
  "snd (close_files io fm) = None \<Longrightarrow> \<forall>u \<in> fst ` set fm. close_error io u = None"
  by (induction fm) (fastforce split: option.splits prod.splits)+

lemma close_files_from:
  "(t, f) \<in> set (fst (close_files io fm)) \<Longrightarrow>
   \<exists>g. (t, g) \<in> set fm \<and> content f = content g \<and> filename f = filename g"
  by (induction fm) (fastforce split: option.splits prod.splits)+


lemma close_files_keys: "map fst (fst (close_files io fm)) = map fst fm"
  by (induction fm) (auto split: option.splits prod.splits)

lemma dump_bag_Continue:
  "dump_loop io fl out init_state msgs = Continue st \<Longrightarrow>
   files (dump_bag io fl out msgs) = fst (close_files io (file_map st))
   \<and> outcome (dump_bag io fl out msgs) =
       (case snd (close_files io (file_map st)) of
          None \<Rightarrow> Inr (length (file_map st)) | Some e \<Rightarrow> Inl e)"
  by (simp add: dump_bag_def split: prod.splits option.splits)

lemma dump_bag_Raised:
  "dump_loop io fl out init_state msgs = Raised e st pending \<Longrightarrow>
   dump_bag io fl out msgs =
     \<lparr>outcome = Inl e, files = file_map st @ (case pending of None \<Rightarrow> [] | Some tf \<Rightarrow> [tf])\<rparr>"
  by (simp add: dump_bag_def)

lemma pass_inv_open: "pass_inv fl out M st \<Longrightarrow> (t, f) \<in> set (file_map st) \<Longrightarrow> \<not> closed f"
  by (auto simp: pass_inv_def file_inv_def)

text \<open>
  C1, as the code has it. The files are closed after the loop and nowhere else. When
  the call returns, every file object it opened is closed. When the message loop
  raises (a message that does not decode, a \<^verbatim>\<open>print\<close> or an \<^verbatim>\<open>open\<close> that fails, a
  flattening or a time that raises), the call raises that error and not one of the
  files it opened is closed. When the loop ends and no \<^verbatim>\<open>close\<close> fails, the call
  returns; when a \<^verbatim>\<open>close\<close> fails, the call raises its error with that file and the
  files opened before it closed, and the files opened after it left open.
\<close>

theorem dump_bag_closes_only_after_loop:
  "(\<forall>n. outcome (dump_bag io fl out msgs) = Inr n
        \<longrightarrow> (\<forall>(t, f) \<in> set (files (dump_bag io fl out msgs)). closed f))
   \<and> (\<forall>e st pending. dump_loop io fl out init_state msgs = Raised e st pending
        \<longrightarrow> outcome (dump_bag io fl out msgs) = Inl e
            \<and> (\<forall>(t, f) \<in> set (files (dump_bag io fl out msgs)). \<not> closed f))
   \<and> (\<forall>st. dump_loop io fl out init_state msgs = Continue st
            \<and> (\<forall>t \<in> fst ` set (file_map st). close_error io t = None)
        \<longrightarrow> outcome (dump_bag io fl out msgs) = Inr (length (file_map st)))
   \<and> (\<forall>st pre t f post e. dump_loop io fl out init_state msgs = Continue st
            \<and> file_map st = pre @ (t, f) # post
            \<and> (\<forall>u \<in> fst ` set pre. close_error io u = None) \<and> close_error io t = Some e
        \<longrightarrow> dump_bag io fl out msgs =
              \<lparr>outcome = Inl e,
               files = map (\<lambda>(u, g). (u, g\<lparr>closed := True\<rparr>)) pre @ (t, f\<lparr>closed := True\<rparr>) # post\<rparr>
            \<and> (\<forall>(u, g) \<in> set post. \<not> closed g))"
proof (intro conjI allI impI)
  fix n assume n: "outcome (dump_bag io fl out msgs) = Inr n"
  show "\<forall>(t, f) \<in> set (files (dump_bag io fl out msgs)). closed f"
  proof (cases "dump_loop io fl out init_state msgs")
    case (Continue st)
    note d = dump_bag_Continue[OF Continue]
    from n d have "snd (close_files io (file_map st)) = None" by (simp split: option.splits)
    then have "\<forall>u \<in> fst ` set (file_map st). close_error io u = None"
      by (rule close_files_None)
    then have "close_files io (file_map st) =
        (map (\<lambda>(u, g). (u, g\<lparr>closed := True\<rparr>)) (file_map st), None)"
      by (rule close_files_ok)
    with d show ?thesis by auto
  next
    case (Raised e st pending)
    from dump_bag_Raised[OF this] n show ?thesis by simp
  qed
next
  fix e st pending
  assume r: "dump_loop io fl out init_state msgs = Raised e st pending"
  note d = dump_bag_Raised[OF r]
  from d show "outcome (dump_bag io fl out msgs) = Inl e" by simp
  from r dump_loop_init_inv[of fl out msgs io]
  have inv: "pass_inv fl out msgs st"
    and pend: "case pending of None \<Rightarrow> True
      | Some (topic, g) \<Rightarrow> g = \<lparr>filename = csv_filename out topic, content = [], closed = False\<rparr>"
    by (auto simp: step_inv_def split: option.splits)
  show "\<forall>(t, f) \<in> set (files (dump_bag io fl out msgs)). \<not> closed f"
  proof (intro ballI, clarify)
    fix t f assume m: "(t, f) \<in> set (files (dump_bag io fl out msgs))" and c: "closed f"
    from m d consider "(t, f) \<in> set (file_map st)" | "pending = Some (t, f)"
      by (auto split: option.splits)
    then have "\<not> closed f"
    proof cases
      case 1
      with inv show ?thesis by (rule pass_inv_open)
    next
      case 2
      with pend show ?thesis by simp
    qed
    with c show False by simp
  qed
next
  fix st
  assume a: "dump_loop io fl out init_state msgs = Continue st
      \<and> (\<forall>t \<in> fst ` set (file_map st). close_error io t = None)"
  then have "close_files io (file_map st) =
      (map (\<lambda>(u, g). (u, g\<lparr>closed := True\<rparr>)) (file_map st), None)"
    by (intro close_files_ok) simp
  with a dump_bag_Continue[of io fl out msgs st]
  show "outcome (dump_bag io fl out msgs) = Inr (length (file_map st))" by simp
next
  fix st pre t f post e
  assume a: "dump_loop io fl out init_state msgs = Continue st
      \<and> file_map st = pre @ (t, f) # post
      \<and> (\<forall>u \<in> fst ` set pre. close_error io u = None) \<and> close_error io t = Some e"
  then have c: "close_files io (file_map st) =
      (map (\<lambda>(u, g). (u, g\<lparr>closed := True\<rparr>)) pre @ (t, f\<lparr>closed := True\<rparr>) # post, Some e)"
    using close_files_stops[of pre io t e f post] by simp
  from a have l: "dump_loop io fl out init_state msgs = Continue st" by simp
  show "dump_bag io fl out msgs =
      \<lparr>outcome = Inl e,
       files = map (\<lambda>(u, g). (u, g\<lparr>closed := True\<rparr>)) pre @ (t, f\<lparr>closed := True\<rparr>) # post\<rparr>"
    using l c by (simp add: dump_bag_def)
  from l dump_loop_init_inv[of fl out msgs io] have "pass_inv fl out msgs st"
    by (simp add: step_inv_def)
  with a show "\<forall>(u, g) \<in> set post. \<not> closed g"
    by (auto dest: pass_inv_open)
qed

theorem dump_bag_closes_only_after_loop_witness:
  "dump_bag (failing_close ''/a'') example_floats ''out''
     [(''/a'', Inr (msg_plain 7), 5), (''/b'', Inr (msg_plain 8), 6)]
   = \<lparr>outcome = Inl OSError,
      files = [(''/a'', \<lparr>filename = ''out/a.csv'', content = [''time,data'', ''0,7''],
                         closed = True\<rparr>),
               (''/b'', \<lparr>filename = ''out/b.csv'', content = [''time,data'', ''1,8''],
                         closed = False\<rparr>)]\<rparr>
   \<and> outcome (dump_bag no_failures example_floats ''out''
        [(''/a'', Inr (msg_plain 7), 5), (''/b'', Inr (msg_plain 8), 6)]) = Inr 2
   \<and> (\<exists>f. (''/b'', f) \<in> set (files (dump_bag no_failures example_floats ''out''
          [(''/a'', Inr (msg_plain 7), 5), (''/b'', Inr (msg_plain 8), 6)])) \<and> closed f)
   \<and> outcome (dump_bag (failing_print ''/b'' 1) example_floats ''out''
        [(''/a'', Inr (msg_plain 7), 5), (''/b'', Inr (msg_plain 8), 6)]) = Inl OSError
   \<and> (\<exists>f. (''/a'', f) \<in> set (files (dump_bag (failing_print ''/b'' 1) example_floats ''out''
          [(''/a'', Inr (msg_plain 7), 5), (''/b'', Inr (msg_plain 8), 6)])) \<and> \<not> closed f)"
proof -
  note T = dump_bag_closes_only_after_loop
  let ?msgs = "[(''/a'', Inr (msg_plain 7), 5), (''/b'', Inr (msg_plain 8), 6)]"
  let ?fa = "\<lparr>filename = ''out/a.csv'', content = [''time,data'', ''0,7''], closed = False\<rparr>"
  let ?fb = "\<lparr>filename = ''out/b.csv'', content = [''time,data'', ''1,8''], closed = False\<rparr>"
  let ?fh = "\<lparr>filename = ''out/b.csv'', content = [''time,data''], closed = False\<rparr>"
  let ?st = "\<lparr>file_map = [(''/a'', ?fa), (''/b'', ?fb)], start_time = Some (PyInt 5),
      msg_count = 2\<rparr>"
  let ?sr = "\<lparr>file_map = [(''/a'', ?fa), (''/b'', ?fh)], start_time = Some (PyInt 5),
      msg_count = 1\<rparr>"
  have l1: "dump_loop (failing_close ''/a'') example_floats ''out'' init_state ?msgs = Continue ?st"
    by (simp add: dump_eval failing_close_def msg_plain_def)
  have l2: "dump_loop no_failures example_floats ''out'' init_state ?msgs = Continue ?st"
    by (simp add: dump_eval msg_plain_def)
  have l3: "dump_loop (failing_print ''/b'' 1) example_floats ''out'' init_state ?msgs
      = Raised OSError ?sr None"
    by (simp add: dump_eval failing_print_def msg_plain_def)
  have h1: "dump_loop (failing_close ''/a'') example_floats ''out'' init_state ?msgs = Continue ?st
      \<and> file_map ?st = [] @ (''/a'', ?fa) # [(''/b'', ?fb)]
      \<and> (\<forall>u \<in> fst ` set []. close_error (failing_close ''/a'') u = None)
      \<and> close_error (failing_close ''/a'') ''/a'' = Some OSError"
    using l1 by (simp add: failing_close_def)
  have "dump_bag (failing_close ''/a'') example_floats ''out'' ?msgs =
      \<lparr>outcome = Inl OSError,
       files = map (\<lambda>(u, g). (u, g\<lparr>closed := True\<rparr>)) [] @ (''/a'', ?fa\<lparr>closed := True\<rparr>)
                # [(''/b'', ?fb)]\<rparr>
      \<and> (\<forall>(u, g) \<in> set [(''/b'', ?fb)]. \<not> closed g)"
    by (rule mp[OF T[THEN conjunct2, THEN conjunct2, THEN conjunct2, THEN spec, THEN spec,
        THEN spec, THEN spec, THEN spec, THEN spec] h1])
  then have a: "dump_bag (failing_close ''/a'') example_floats ''out'' ?msgs
      = \<lparr>outcome = Inl OSError,
         files = [(''/a'', \<lparr>filename = ''out/a.csv'', content = [''time,data'', ''0,7''],
                         closed = True\<rparr>),
               (''/b'', \<lparr>filename = ''out/b.csv'', content = [''time,data'', ''1,8''],
                         closed = False\<rparr>)]\<rparr>"
    by simp
  have h2: "dump_loop no_failures example_floats ''out'' init_state ?msgs = Continue ?st
      \<and> (\<forall>t \<in> fst ` set (file_map ?st). close_error no_failures t = None)"
    using l2 by (simp add: no_failures_def)
  have "outcome (dump_bag no_failures example_floats ''out'' ?msgs) = Inr (length (file_map ?st))"
    by (rule mp[OF T[THEN conjunct2, THEN conjunct2, THEN conjunct1, THEN spec] h2])
  then have b: "outcome (dump_bag no_failures example_floats ''out'' ?msgs) = Inr 2" by simp
  have m1: "(''/b'', ?fb\<lparr>closed := True\<rparr>)
      \<in> set (files (dump_bag no_failures example_floats ''out'' ?msgs))"
    unfolding dump_bag_def l2 by (simp add: no_failures_def)
  have "case (''/b'', ?fb\<lparr>closed := True\<rparr>) of (t, f) \<Rightarrow> closed f"
    by (rule bspec[OF mp[OF spec[OF T[THEN conjunct1]] b] m1])
  then have k1: "closed (?fb\<lparr>closed := True\<rparr>)" by simp
  have c: "\<exists>f. (''/b'', f) \<in> set (files (dump_bag no_failures example_floats ''out'' ?msgs))
      \<and> closed f"
    by (rule exI[where x = "?fb\<lparr>closed := True\<rparr>"]) (rule conjI[OF m1 k1])
  note r = mp[OF T[THEN conjunct2, THEN conjunct1, THEN spec, THEN spec, THEN spec] l3]
  have d: "outcome (dump_bag (failing_print ''/b'' 1) example_floats ''out'' ?msgs) = Inl OSError"
    by (rule r[THEN conjunct1])
  have m2: "(''/a'', ?fa)
      \<in> set (files (dump_bag (failing_print ''/b'' 1) example_floats ''out'' ?msgs))"
    unfolding dump_bag_def l3 by simp
  have "case (''/a'', ?fa) of (t, f) \<Rightarrow> \<not> closed f"
    by (rule bspec[OF r[THEN conjunct2] m2])
  then have k2: "\<not> closed ?fa" by simp
  have e: "\<exists>f. (''/a'', f)
      \<in> set (files (dump_bag (failing_print ''/b'' 1) example_floats ''out'' ?msgs)) \<and> \<not> closed f"
    by (rule exI[where x = "?fa"]) (rule conjI[OF m2 k2])
  show ?thesis by (intro conjI a b c d e)
qed

theorem dump_bag_abort_leaves_open:
  "dump_bag no_failures example_floats ''out''
     [(''/a'', Inr (msg_plain 7), 5), (''/a'', Inl DecodeError, 6)]
   = \<lparr>outcome = Inl DecodeError,
      files = [(''/a'', \<lparr>filename = ''out/a.csv'', content = [''time,data'', ''0,7''],
                         closed = False\<rparr>)]\<rparr>
   \<and> dump_bag (failing_print ''/a'' 2) example_floats ''out''
     [(''/a'', Inr (msg_plain 7), 5), (''/a'', Inr (msg_plain 8), 6)]
   = \<lparr>outcome = Inl OSError,
      files = [(''/a'', \<lparr>filename = ''out/a.csv'', content = [''time,data'', ''0,7''],
                         closed = False\<rparr>)]\<rparr>"
  by (simp add: dump_eval failing_print_def msg_plain_def)

section \<open>Skipped topics\<close>

lemma distinct_keys_length: "distinct (map fst fm) \<Longrightarrow> length fm = card (fst ` set fm)"
  using distinct_card[of "map fst fm"] by simp

text \<open>
  C8. A pass behaves as though the messages of the topics in \<open>SKIP_TOPICS\<close> were not in
  the bag: they change nothing, whether they decode or not. No file object is opened
  for such a topic, and the count a pass returns is the number of topics of the bag
  outside \<open>SKIP_TOPICS\<close>.
\<close>

theorem skipped_topics_ignored:
  "dump_bag io fl out msgs = dump_bag io fl out (filter (\<lambda>m. fst m \<notin> SKIP_TOPICS) msgs)
   \<and> (\<forall>(t, f) \<in> set (files (dump_bag io fl out msgs)). t \<notin> SKIP_TOPICS)
   \<and> (\<forall>n. outcome (dump_bag io fl out msgs) = Inr n
        \<longrightarrow> n = card {t \<in> fst ` set msgs. t \<notin> SKIP_TOPICS})"
proof (intro conjI)
  show "dump_bag io fl out msgs = dump_bag io fl out (filter (\<lambda>m. fst m \<notin> SKIP_TOPICS) msgs)"
    by (simp add: dump_bag_def dump_loop_skip)
next
  show "\<forall>(t, f) \<in> set (files (dump_bag io fl out msgs)). t \<notin> SKIP_TOPICS"
  proof (cases "dump_loop io fl out init_state msgs")
    case (Continue st)
    with dump_loop_init_inv[of fl out msgs io] have "pass_inv fl out msgs st"
      by (simp add: step_inv_def)
    then have "\<forall>(t, f) \<in> set (file_map st). t \<notin> SKIP_TOPICS"
      by (auto simp: pass_inv_def file_inv_def)
    with dump_bag_Continue[OF Continue] show ?thesis by (auto dest: close_files_from)
  next
    case (Raised e st pending)
    with dump_loop_init_inv[of fl out msgs io]
    have inv: "pass_inv fl out msgs st"
      and pend: "case pending of None \<Rightarrow> True | Some (topic, g) \<Rightarrow> topic \<notin> SKIP_TOPICS"
      by (auto simp: step_inv_def split: option.splits)
    from inv have "\<forall>(t, f) \<in> set (file_map st). t \<notin> SKIP_TOPICS"
      by (auto simp: pass_inv_def file_inv_def)
    with pend Raised show ?thesis by (auto simp: dump_bag_def split: option.splits)
  qed
next
  show "\<forall>n. outcome (dump_bag io fl out msgs) = Inr n
      \<longrightarrow> n = card {t \<in> fst ` set msgs. t \<notin> SKIP_TOPICS}"
  proof (intro allI impI)
    fix n assume n: "outcome (dump_bag io fl out msgs) = Inr n"
    then obtain st where l: "dump_loop io fl out init_state msgs = Continue st"
      and len: "n = length (file_map st)"
      by (auto simp: dump_bag_def split: step.splits prod.splits option.splits)
    from l dump_loop_init_inv[of fl out msgs io] have "distinct (map fst (file_map st))"
      by (simp add: step_inv_def pass_inv_def)
    then have "length (file_map st) = card (fst ` set (file_map st))"
      by (rule distinct_keys_length)
    moreover from dump_loop_keys[OF l]
    have "fst ` set (file_map st) = {t \<in> fst ` set msgs. t \<notin> SKIP_TOPICS}"
      by (simp add: init_state_def)
    ultimately show "n = card {t \<in> fst ` set msgs. t \<notin> SKIP_TOPICS}"
      using len by simp
  qed
qed

theorem skipped_topics_ignored_witness:
  "dump_bag no_failures example_floats ''out''
     [(''/rosout'', Inr (msg_plain 1), 3), (''/a'', Inr (msg_plain 7), 5),
      (''/parameter_events'', Inl DecodeError, 6)]
   = \<lparr>outcome = Inr 1,
      files = [(''/a'', \<lparr>filename = ''out/a.csv'', content = [''time,data'', ''0,7''],
                         closed = True\<rparr>)]\<rparr>"
proof -
  have r: "dump_bag no_failures example_floats ''out'' [(''/a'', Inr (msg_plain 7), 5)]
      = \<lparr>outcome = Inr 1,
         files = [(''/a'', \<lparr>filename = ''out/a.csv'', content = [''time,data'', ''0,7''],
                         closed = True\<rparr>)]\<rparr>"
    by (simp add: dump_eval msg_plain_def)
  have f: "filter (\<lambda>m. fst m \<notin> SKIP_TOPICS)
      [(''/rosout'', Inr (msg_plain 1), 3), (''/a'', Inr (msg_plain 7), 5),
       (''/parameter_events'', Inl DecodeError, 6)] = [(''/a'', Inr (msg_plain 7), 5)]"
    by (simp add: SKIP_TOPICS_def)
  show ?thesis
    by (rule trans[OF skipped_topics_ignored[THEN conjunct1]]) (simp only: f r)
qed

section \<open>The time of a message\<close>





text \<open>
  One pass with both sources: the first message has a header (1.5 s), the second has
  none and its bag timestamp (2000000000, nanoseconds) is taken as it is; its row time
  is their difference.
\<close>

lemma mixed_sources_pass:
  "dump_bag no_failures example_floats ''out''
     [(''/a'', Inr (msg_stamped 1 500000000 ''x''), 1000), (''/b'', Inr (msg_plain 7), 2000000000)]
   = \<lparr>outcome = Inr 2,
      files = [(''/a'', \<lparr>filename = ''out/a.csv'', content = [''time,data'', ''0.0,x''],
                         closed = True\<rparr>),
               (''/b'', \<lparr>filename = ''out/b.csv'', content = [''time,data'', ''1999999998.5,7''],
                         closed = True\<rparr>)]\<rparr>"
  by (simp add: dump_eval msg_plain_def msg_stamped_def example_floats_def)

section \<open>The start time of a pass\<close>



















lemma files_from_state:
  assumes "(T, f) \<in> set (files (dump_bag io fl out msgs))"
  shows "(\<exists>g. (T, g) \<in> set (file_map (step_state (dump_loop io fl out init_state msgs)))
            \<and> content f = content g \<and> filename f = filename g)
    \<or> content f = []"
proof (cases "dump_loop io fl out init_state msgs")
  case (Continue st)
  with assms dump_bag_Continue[OF Continue] close_files_from[of T f io "file_map st"]
  show ?thesis by auto
next
  case (Raised e st p)
  with dump_loop_init_inv[of fl out msgs io]
  have pend: "case p of None \<Rightarrow> True
      | Some (topic, g) \<Rightarrow> g = \<lparr>filename = csv_filename out topic, content = [], closed = False\<rparr>"
    by (auto simp: step_inv_def split: option.splits)
  from assms dump_bag_Raised[OF Raised] consider "(T, f) \<in> set (file_map st)" | "p = Some (T, f)"
    by (auto split: option.splits)
  then show ?thesis
  proof cases
    case 1
    with Raised show ?thesis by auto
  next
    case 2
    with pend show ?thesis by simp
  qed
qed

lemma state_inv:
  "pass_inv fl out msgs (step_state (dump_loop io fl out init_state msgs))"
  using dump_loop_init_inv[of fl out msgs io]
  by (cases "dump_loop io fl out init_state msgs") (simp_all add: step_inv_def)

lemma files_rows:
  assumes "(T, f) \<in> set (files (dump_bag io fl out msgs))" and "row \<in> set (tl (content f))"
  shows "is_row_of fl msgs (start_time (step_state (dump_loop io fl out init_state msgs))) T row"
proof -
  from assms(2) have "content f \<noteq> []" by auto
  with files_from_state[OF assms(1)] obtain g where
    g: "(T, g) \<in> set (file_map (step_state (dump_loop io fl out init_state msgs)))"
      "content f = content g"
    by blast
  with state_inv[of fl out msgs io]
  have "file_inv fl out msgs (start_time (step_state (dump_loop io fl out init_state msgs))) T g"
    by (auto simp: pass_inv_def)
  with g(2) assms(2) show ?thesis by (auto simp: file_inv_def)
qed


lemma example_bag_result:
  "dump_bag no_failures example_floats ''out'' example_bag
   = \<lparr>outcome = Inr 2,
      files = [(''/a'', \<lparr>filename = ''out/a.csv'',
                         content = [''time,data'', ''0.0,x'', ''1.5,y''], closed = True\<rparr>),
               (''/b'', \<lparr>filename = ''out/b.csv'',
                         content = [''time,data'', ''1999999998.5,7''], closed = True\<rparr>)]\<rparr>"
  by (simp add: dump_eval example_bag_def msg_plain_def msg_stamped_def example_floats_def)


section \<open>Columns of the rows and of the header\<close>

lemma str_nat_digits: "set (str_nat n) \<subseteq> set ''0123456789''"
proof (induction n rule: str_nat.induct)
  case (1 n)
  have d: "''0123456789'' ! k \<in> set ''0123456789''" if "k < 10" for k
    using that by (intro nth_mem) simp
  show ?case
  proof (cases "n < 10")
    case True
    then have "str_nat n = [''0123456789'' ! n]" by (simp add: str_nat.simps)
    with d[OF True] show ?thesis by simp
  next
    case False
    then have "str_nat n = str_nat (n div 10) @ [''0123456789'' ! (n mod 10)]"
      by (subst str_nat.simps) simp
    moreover have "n mod 10 < 10" by simp
    ultimately show ?thesis using 1[OF False] d[of "n mod 10"] by simp
  qed
qed

lemma str_nat_plain: "plain (str_nat n)"
  using str_nat_digits[of n] by (auto simp: plain_def)

lemma str_int_plain: "plain (str_int i)"
  using str_nat_plain[of "nat i"] str_nat_plain[of "nat (- i)"]
  by (simp add: str_int_def plain_def)

lemma str_num_plain: "\<forall>d. plain (f_repr fl d) \<Longrightarrow> plain (str_num fl t)"
  by (cases t) (simp_all add: str_int_plain)

lemma count_join:
  "cells \<noteq> [] \<Longrightarrow> \<forall>c \<in> set cells. CHR '','' \<notin> set c \<Longrightarrow>
   count_list (join '','' cells) CHR '','' = length cells - 1"
proof (induction "'',''" cells rule: join.induct)
  case 1
  then show ?case by simp
next
  case (2 x)
  then show ?case by (simp add: count_list_0_iff)
next
  case (3 x y ys)
  then have "count_list x CHR '','' = 0" by (simp add: count_list_0_iff)
  with 3 show ?case by simp
qed

lemma join_chars:
  "c \<in> set (join sep cells) \<Longrightarrow> c \<in> set sep \<or> (\<exists>x \<in> set cells. c \<in> set x)"
  by (induction sep cells rule: join.induct) auto

lemma header_fields_filter:
  "header_fields fvs = filter (\<lambda>p. \<not> startswith p ''header.'') (map fst fvs)"
  by (induction fvs) (auto simp: header_fields_def)

lemma row_values_length: "length (row_values fl fvs) = length (header_fields fvs)"
  by (induction fvs) (auto simp: row_values_def header_fields_def)

lemma row_values_plain:
  "\<forall>(p, v) \<in> set fvs. plain (py_str fl v) \<Longrightarrow> \<forall>c \<in> set (row_values fl fvs). plain c"
  by (induction fvs) (auto simp: row_values_def)

lemma header_fields_plain:
  "\<forall>(p, v) \<in> set fvs. plain p \<Longrightarrow> \<forall>c \<in> set (header_fields fvs). plain c"
  by (induction fvs) (auto simp: header_fields_def)

lemma columns_header_line:
  assumes "header_fields fvs \<noteq> []" and "\<forall>(p, v) \<in> set fvs. plain p"
  shows "columns (header_line fvs) = Suc (length (header_fields fvs))"
proof -
  from header_fields_plain[OF assms(2)]
  have "\<forall>c \<in> set (header_fields fvs). CHR '','' \<notin> set c" by (simp add: plain_def)
  with assms(1)
  have "count_list (join '','' (header_fields fvs)) CHR '','' = length (header_fields fvs) - 1"
    by (rule count_join)
  moreover have "length (header_fields fvs) \<noteq> 0" using assms(1) by simp
  ultimately show ?thesis by (simp add: columns_def header_line_def)
qed

lemma columns_row_line:
  assumes "\<forall>(p, v) \<in> set fvs. plain (py_str fl v)" and "\<forall>d. plain (f_repr fl d)"
  shows "columns (row_line fl t fvs) = Suc (length (header_fields fvs))"
proof -
  from str_num_plain[OF assms(2)] row_values_plain[OF assms(1)]
  have "\<forall>c \<in> set (str_num fl t # row_values fl fvs). CHR '','' \<notin> set c"
    by (simp add: plain_def)
  then have "count_list (join '','' (str_num fl t # row_values fl fvs)) CHR '',''
      = length (str_num fl t # row_values fl fvs) - 1"
    by (intro count_join) simp_all
  then show ?thesis by (simp add: columns_def row_line_def row_values_length)
qed

text \<open>A header or a row built from plain texts has no line end in it.\<close>

lemma header_line_unbroken:
  assumes "\<forall>(p, v) \<in> set fvs. plain p"
  shows "CHR 0x0A \<notin> set (header_line fvs) \<and> CHR 0x0D \<notin> set (header_line fvs)"
proof -
  have "c \<notin> set (header_line fvs)" if c: "c = CHR 0x0A \<or> c = CHR 0x0D" for c
  proof
    assume "c \<in> set (header_line fvs)"
    then have "c \<in> set ''time,'' \<or> c \<in> set (join '','' (header_fields fvs))"
      by (simp add: header_line_def)
    with c have "c \<in> set (join '','' (header_fields fvs))" by auto
    from join_chars[OF this] c obtain x where "x \<in> set (header_fields fvs)" "c \<in> set x"
      by auto
    with header_fields_plain[OF assms] c show False by (auto simp: plain_def)
  qed
  then show ?thesis by simp
qed

lemma row_line_unbroken:
  assumes "\<forall>(p, v) \<in> set fvs. plain (py_str fl v)" and "\<forall>d. plain (f_repr fl d)"
  shows "CHR 0x0A \<notin> set (row_line fl t fvs) \<and> CHR 0x0D \<notin> set (row_line fl t fvs)"
proof -
  from str_num_plain[OF assms(2)] row_values_plain[OF assms(1)]
  have pl: "\<forall>x \<in> set (str_num fl t # row_values fl fvs). plain x" by simp
  have "c \<notin> set (row_line fl t fvs)" if c: "c = CHR 0x0A \<or> c = CHR 0x0D" for c
  proof
    assume "c \<in> set (row_line fl t fvs)"
    then have "c \<in> set (join '','' (str_num fl t # row_values fl fvs))"
      by (simp add: row_line_def)
    from join_chars[OF this] c obtain x where
      "x \<in> set (str_num fl t # row_values fl fvs)" "c \<in> set x"
      by auto
    with pl c show False by (auto simp: plain_def)
  qed
  then show ?thesis by simp
qed

text \<open>The lines read back from a text are the lines printed, when none has a line end in it.\<close>

lemma lines_from_line:
  assumes "CHR 0x0A \<notin> set l" and "CHR 0x0D \<notin> set l"
  shows "lines_from cur (l @ CHR 0x0A # rest) = (cur @ l) # lines_from [] rest"
  using assms
proof (induction l arbitrary: cur)
  case Nil
  then show ?case by (cases rest) simp_all
next
  case (Cons c l)
  obtain d cs where dc: "l @ CHR 0x0A # rest = d # cs" by (cases l) simp_all
  from Cons.prems have c: "c \<noteq> CHR 0x0A" "c \<noteq> CHR 0x0D" by auto
  have "lines_from cur ((c # l) @ CHR 0x0A # rest) = lines_from cur (c # d # cs)"
    using dc by simp
  also have "\<dots> = lines_from (cur @ [c]) (d # cs)" using c by simp
  also have "\<dots> = lines_from (cur @ [c]) (l @ CHR 0x0A # rest)" using dc by simp
  also have "\<dots> = ((cur @ [c]) @ l) # lines_from [] rest"
    using Cons.prems by (intro Cons.IH) simp_all
  finally show ?case by simp
qed

lemma file_lines_stream:
  "\<forall>l \<in> set ls. CHR 0x0A \<notin> set l \<and> CHR 0x0D \<notin> set l \<Longrightarrow>
   lines_from [] (concat (map (\<lambda>line. line @ [CHR 0x0A]) ls)) = ls"
proof (induction ls)
  case Nil
  then show ?case by simp
next
  case (Cons l ls)
  have "lines_from [] (l @ CHR 0x0A # concat (map (\<lambda>line. line @ [CHR 0x0A]) ls))
      = ([] @ l) # lines_from [] (concat (map (\<lambda>line. line @ [CHR 0x0A]) ls))"
    using Cons.prems by (intro lines_from_line) simp_all
  with Cons show ?case by simp
qed

lemma file_text_of:
  assumes "(T, f) \<in> set (files r)" and "file_text r (filename f) = Some text"
  shows "text = stream f"
proof -
  let ?same = "filter (\<lambda>(t, g). filename g = filename f) (files r)"
  from assms(2) obtain t g where one: "?same = [(t, g)]" and tx: "text = stream g"
    by (auto simp: file_text_def split: sum.splits list.splits)
  from assms(1) have "(T, f) \<in> set ?same" by simp
  with one have "g = f" by simp
  with tx show ?thesis by simp
qed

lemma topic_flat_mem:
  "(T, Inr m, ts) \<in> set msgs \<Longrightarrow> gen_msg_values m [] = Inr fvs \<Longrightarrow> fvs \<in> set (topic_flat msgs T)"
  by (induction msgs) (auto simp: topic_flat_def)

lemma stable_same_length:
  assumes "paths_stable msgs T"
    and "\<forall>fvs \<in> set (topic_flat msgs T). distinct (map fst fvs)"
    and "a \<in> set (topic_flat msgs T)" and "b \<in> set (topic_flat msgs T)"
  shows "length (header_fields a) = length (header_fields b)"
proof -
  from assms(3) obtain first later where tf: "topic_flat msgs T = first # later"
    by (cases "topic_flat msgs T") auto
  with assms(1) have st: "\<forall>fvs \<in> set later. set (map fst fvs) = set (map fst first)"
    by (simp add: paths_stable_def)
  have same: "set (map fst x) = set (map fst first)" if "x \<in> set (topic_flat msgs T)" for x
  proof (cases "x = first")
    case True
    then show ?thesis by simp
  next
    case False
    with that tf have "x \<in> set later" by simp
    with st show ?thesis by blast
  qed
  have len: "length (header_fields x) = card (set (header_fields first))"
    if "x \<in> set (topic_flat msgs T)" for x
  proof -
    from that assms(2) have "distinct (map fst x)" by blast
    then have "distinct (header_fields x)" by (simp add: header_fields_filter)
    then have "length (header_fields x) = card (set (header_fields x))"
      by (simp add: distinct_card)
    moreover have "set (header_fields x) = set (header_fields first)"
      using same[OF that] by (simp only: header_fields_filter set_filter)
    ultimately show ?thesis by simp
  qed
  from len[OF assms(3)] len[OF assms(4)] show ?thesis by simp
qed

lemma files_header:
  assumes "(T, f) \<in> set (files (dump_bag io fl out msgs))" and "content f = h # rows"
  shows "is_header_of msgs T h"
proof -
  from assms(2) have "content f \<noteq> []" by simp
  with files_from_state[OF assms(1)] obtain g where
    g: "(T, g) \<in> set (file_map (step_state (dump_loop io fl out init_state msgs)))"
      "content f = content g"
    by blast
  with state_inv[of fl out msgs io]
  have "file_inv fl out msgs (start_time (step_state (dump_loop io fl out init_state msgs))) T g"
    by (auto simp: pass_inv_def)
  with g(2) assms(2) show ?thesis by (auto simp: file_inv_def)
qed

section \<open>The paths of a message are distinct\<close>

lemma digit_nth_inj:
  "i < 10 \<Longrightarrow> j < 10 \<Longrightarrow> (''0123456789'' ! i = ''0123456789'' ! j) = (i = j)"
  by (rule nth_eq_iff_index_eq) simp_all

lemma str_nat_small: "n < 10 \<Longrightarrow> str_nat n = [''0123456789'' ! n]"
  by (simp add: str_nat.simps)

lemma str_nat_big:
  "\<not> n < 10 \<Longrightarrow> str_nat n = str_nat (n div 10) @ [''0123456789'' ! (n mod 10)]"
  by (subst str_nat.simps) simp

lemma str_nat_nonempty: "str_nat n \<noteq> []"
  by (cases "n < 10") (simp_all add: str_nat_small str_nat_big)

lemma str_nat_length:
  "length (str_nat n) = 1 \<longleftrightarrow> n < 10"
proof (cases "n < 10")
  case True
  then show ?thesis by (simp add: str_nat_small)
next
  case False
  have "length (str_nat (n div 10)) \<noteq> 0" using str_nat_nonempty[of "n div 10"] by simp
  with False show ?thesis by (simp add: str_nat_big)
qed

lemma str_nat_inj: "str_nat n = str_nat m \<Longrightarrow> n = m"
proof (induction n arbitrary: m rule: str_nat.induct)
  case (1 n)
  from 1(2) have "length (str_nat n) = length (str_nat m)" by simp
  then have same: "n < 10 \<longleftrightarrow> m < 10" using str_nat_length[of n] str_nat_length[of m] by simp
  show ?case
  proof (cases "n < 10")
    case True
    with same have "m < 10" by simp
    with True 1(2) show ?thesis by (simp add: str_nat_small digit_nth_inj)
  next
    case False
    with same have m10: "\<not> m < 10" by simp
    from False have n: "str_nat n = str_nat (n div 10) @ [''0123456789'' ! (n mod 10)]"
      by (rule str_nat_big)
    from m10 have m: "str_nat m = str_nat (m div 10) @ [''0123456789'' ! (m mod 10)]"
      by (rule str_nat_big)
    from n m 1(2) have e: "str_nat (n div 10) = str_nat (m div 10)"
      and d: "''0123456789'' ! (n mod 10) = ''0123456789'' ! (m mod 10)"
      by simp_all
    from 1(1)[OF False e] have "n div 10 = m div 10" .
    moreover from d have "n mod 10 = m mod 10" by (simp add: digit_nth_inj)
    ultimately show ?thesis by (metis div_mult_mod_eq)
  qed
qed

lemma takeWhile_stop:
  assumes "\<forall>c \<in> set xs. P c" and "ys = [] \<or> \<not> P (hd ys)"
  shows "takeWhile P (xs @ ys) = xs"
proof (cases ys)
  case Nil
  with assms(1) show ?thesis by (simp add: takeWhile_eq_all_conv)
next
  case (Cons y t)
  with assms(2) have "\<not> P y" by simp
  with assms(1) Cons show ?thesis by (simp add: takeWhile_append2)
qed

lemma index_text_inj:
  assumes "str_nat i @ '']'' @ s = str_nat k @ '']'' @ s'"
  shows "i = k"
proof -
  let ?P = "\<lambda>c. c \<in> set ''0123456789''"
  have a: "takeWhile ?P (str_nat n @ ('']'' @ t)) = str_nat n" for n t
  proof (rule takeWhile_stop)
    show "\<forall>c \<in> set (str_nat n). c \<in> set ''0123456789''" using str_nat_digits[of n] by blast
    show "'']'' @ t = [] \<or> \<not> hd ('']'' @ t) \<in> set ''0123456789''" by simp
  qed
  from assms have "takeWhile ?P (str_nat i @ ('']'' @ s)) = takeWhile ?P (str_nat k @ ('']'' @ s'))"
    by simp
  then have "str_nat i = str_nat k" by (simp only: a)
  then show ?thesis by (rule str_nat_inj)
qed

lemma name_before_tail:
  assumes "CHR ''.'' \<notin> set f" "CHR ''['' \<notin> set f" "CHR ''.'' \<notin> set g" "CHR ''['' \<notin> set g"
    and "tail_like s" "tail_like s'" and "f @ s = g @ s'"
  shows "f = g"
proof -
  let ?P = "\<lambda>c. c \<noteq> CHR ''.'' \<and> c \<noteq> CHR ''[''"
  have "takeWhile ?P (f @ s) = f"
    using assms(1,2,5) by (intro takeWhile_stop) (auto simp: tail_like_def)
  moreover have "takeWhile ?P (g @ s') = g"
    using assms(3,4,6) by (intro takeWhile_stop) (auto simp: tail_like_def)
  ultimately show ?thesis using assms(7) by simp
qed

lemma iter_chars_paths:
  "map fst (iter_chars t pfx) = map (\<lambda>i. pfx @ ''['' @ str_nat i @ '']'') [0..<length t]"
proof -
  have "map fst (iter_chars t pfx)
      = map ((\<lambda>i. pfx @ ''['' @ str_nat i @ '']'') \<circ> fst) (enumerate 0 t)"
    by (simp add: iter_chars_def case_prod_unfold comp_def)
  also have "\<dots> = map (\<lambda>i. pfx @ ''['' @ str_nat i @ '']'') (map fst (enumerate 0 t))"
    by (simp only: map_map)
  also have "\<dots> = map (\<lambda>i. pfx @ ''['' @ str_nat i @ '']'') [0..<length t]"
    by simp
  finally show ?thesis .
qed

lemma iter_chars_shape:
  assumes "p \<in> fst ` set (iter_chars t pfx)"
  shows "\<exists>k s. p = pfx @ ''['' @ str_nat k @ '']'' @ s \<and> s = []"
proof -
  from assms have "p \<in> set (map fst (iter_chars t pfx))" by simp
  then show ?thesis unfolding iter_chars_paths by auto
qed

lemma iter_chars_distinct: "distinct (map fst (iter_chars t pfx))"
proof -
  have "inj_on (\<lambda>i. pfx @ ''['' @ str_nat i @ '']'') (set [0..<length t])"
    by (rule inj_onI) (auto dest: str_nat_inj)
  then show ?thesis unfolding iter_chars_paths by (simp add: distinct_map)
qed

lemma sequence_value_Inr:
  assumes "(case val of
              PyList ys \<Rightarrow> gen_list ys full 0
            | Leaf (Str t) \<Rightarrow> Inr (iter_chars t full)
            | _ \<Rightarrow> Inl TypeError) = Inr a"
  obtains (elements) ys where "val = PyList ys" "gen_list ys full 0 = Inr a"
    | (characters) t where "val = Leaf (Str t)" "a = iter_chars t full"
  using assms by (auto split: pyval.splits scalar.splits)

lemma gen_list_Cons_Inr:
  assumes "gen_list (val # rest) pfx i = Inr fvs"
  obtains a b where "gen_msg_values val (pfx @ ''['' @ str_nat i @ '']'') = Inr a"
    and "gen_list rest pfx (Suc i) = Inr b" and "fvs = a @ b"
  using assms by (auto split: sum.splits)

lemma gen_fields_Cons_Inr:
  assumes "gen_fields ((field, field_type, val) # rest) pfx = Inr fvs"
  obtains a b where
    "(if startswith field_type ''sequence<''
      then (case val of
              PyList ys \<Rightarrow> gen_list ys (if pfx \<noteq> [] then pfx @ ''.'' @ field else field) 0
            | Leaf (Str t) \<Rightarrow>
                Inr (iter_chars t (if pfx \<noteq> [] then pfx @ ''.'' @ field else field))
            | _ \<Rightarrow> Inl TypeError)
      else gen_msg_values val (if pfx \<noteq> [] then pfx @ ''.'' @ field else field)) = Inr a"
    and "gen_fields rest pfx = Inr b" and "fvs = a @ b"
  using assms by (auto simp: Let_def split: sum.splits)

lemma gen_shape:
  "gen_msg_values v pfx = Inr fvs \<Longrightarrow> pfx \<noteq> [] \<Longrightarrow> p \<in> fst ` set fvs
     \<Longrightarrow> \<exists>s. p = pfx @ s \<and> tail_like s"
  "gen_list xs pfx i = Inr fvs \<Longrightarrow> p \<in> fst ` set fvs
     \<Longrightarrow> \<exists>k s. i \<le> k \<and> p = pfx @ ''['' @ str_nat k @ '']'' @ s"
  "gen_fields fs pfx = Inr fvs \<Longrightarrow> pfx \<noteq> [] \<or> (\<forall>f \<in> fst ` set fs. f \<noteq> [])
     \<Longrightarrow> p \<in> fst ` set fvs
     \<Longrightarrow> \<exists>f \<in> fst ` set fs. \<exists>s.
           p = (if pfx \<noteq> [] then pfx @ ''.'' @ f else f) @ s \<and> tail_like s"
proof (induction v pfx and xs pfx i and fs pfx arbitrary: fvs p and fvs p and fvs p
    rule: gen_msg_values_gen_list_gen_fields.induct)
  case (1 xs pfx)
  from 1(2) have "gen_list xs pfx 0 = Inr fvs" by simp
  from 1(1)[OF this 1(4)] obtain k s where "p = pfx @ ''['' @ str_nat k @ '']'' @ s" by blast
  then have "p = pfx @ (''['' @ str_nat k @ '']'' @ s) \<and> tail_like (''['' @ str_nat k @ '']'' @ s)"
    by (simp add: tail_like_def)
  then show ?case by blast
next
  case (2 fs pfx)
  from 2(2) have "gen_fields fs pfx = Inr fvs" by simp
  from 2(1)[OF this _ 2(4)] 2(3) obtain f s where
    "p = (pfx @ ''.'' @ f) @ s" "tail_like s" by auto
  then have "p = pfx @ (''.'' @ f @ s) \<and> tail_like (''.'' @ f @ s)"
    by (simp add: tail_like_def)
  then show ?case by blast
next
  case (3 v pfx)
  then show ?case by (auto simp: tail_like_def)
next
  case (4 pfx i)
  then show ?case by simp
next
  case (5 val rest pfx i)
  from 5(3) obtain a b where ab: "gen_msg_values val (pfx @ ''['' @ str_nat i @ '']'') = Inr a"
    "gen_list rest pfx (Suc i) = Inr b" "fvs = a @ b"
    by (rule gen_list_Cons_Inr)
  from 5(4) ab(3) consider "p \<in> fst ` set a" | "p \<in> fst ` set b" by auto
  then show ?case
  proof cases
    case 1
    from 5(1)[OF ab(1) _ 1] obtain s where "p = (pfx @ ''['' @ str_nat i @ '']'') @ s" by auto
    then have "i \<le> i \<and> p = pfx @ ''['' @ str_nat i @ '']'' @ s" by simp
    then show ?thesis by blast
  next
    case 2
    from 5(2)[OF ab(1) ab(2) 2] obtain k s where "Suc i \<le> k" "p = pfx @ ''['' @ str_nat k @ '']'' @ s"
      by blast
    then have "i \<le> k \<and> p = pfx @ ''['' @ str_nat k @ '']'' @ s" by simp
    then show ?thesis by blast
  qed
next
  case (6 pfx)
  then show ?case by simp
next
  case (7 field field_type val rest pfx)
  let ?full = "if pfx \<noteq> [] then pfx @ ''.'' @ field else field"
  from 7(4) obtain a b where ab:
    "(if startswith field_type ''sequence<''
      then (case val of PyList ys \<Rightarrow> gen_list ys ?full 0
            | Leaf (Str t) \<Rightarrow> Inr (iter_chars t ?full) | _ \<Rightarrow> Inl TypeError)
      else gen_msg_values val ?full) = Inr a"
    "gen_fields rest pfx = Inr b" "fvs = a @ b"
    by (rule gen_fields_Cons_Inr)
  from 7(5) have ne: "?full \<noteq> []" by auto
  from 7(6) ab(3) consider "p \<in> fst ` set a" | "p \<in> fst ` set b" by auto
  then show ?case
  proof cases
    case 1
    have "\<exists>s. p = ?full @ s \<and> tail_like s"
    proof (cases "startswith field_type ''sequence<''")
      case True
      with ab(1) have sq: "(case val of PyList ys \<Rightarrow> gen_list ys ?full 0
            | Leaf (Str t) \<Rightarrow> Inr (iter_chars t ?full) | _ \<Rightarrow> Inl TypeError) = Inr a"
        by simp
      have "\<exists>k s. p = ?full @ ''['' @ str_nat k @ '']'' @ s"
        using sq
      proof (cases rule: sequence_value_Inr)
        case (elements ys)
        from 7(1)[OF refl True elements(1) elements(2) 1] show ?thesis by blast
      next
        case (characters t)
        with 1 iter_chars_shape[of p t ?full] show ?thesis by blast
      qed
      then obtain k s where "p = ?full @ ''['' @ str_nat k @ '']'' @ s" by blast
      then have "p = ?full @ (''['' @ str_nat k @ '']'' @ s)
          \<and> tail_like (''['' @ str_nat k @ '']'' @ s)"
        by (simp add: tail_like_def)
      then show ?thesis by blast
    next
      case False
      with ab(1) have "gen_msg_values val ?full = Inr a" by simp
      from 7(2)[OF refl False this ne 1] show ?thesis .
    qed
    then show ?thesis by auto
  next
    case 2
    from 7(5) have c: "pfx \<noteq> [] \<or> (\<forall>f \<in> fst ` set rest. f \<noteq> [])" by auto
    from 7(3)[OF refl ab(1) ab(2) c 2] show ?thesis by auto
  qed
qed

lemma wf_fields_names:
  "wf_fields fs \<Longrightarrow> f \<in> fst ` set fs \<Longrightarrow> f \<noteq> [] \<and> CHR ''.'' \<notin> set f \<and> CHR ''['' \<notin> set f"
proof (induction fs)
  case Nil
  then show ?case by simp
next
  case (Cons x fs)
  obtain name t v where x: "x = (name, t, v)" by (cases x) auto
  from Cons.prems(2) x consider "f = name" | "f \<in> fst ` set fs" by auto
  then show ?case
  proof cases
    case 1
    with Cons.prems(1) x show ?thesis by simp
  next
    case 2
    with Cons.prems(1) x Cons.IH show ?thesis by simp
  qed
qed

lemma gen_distinct:
  "wf_val v \<Longrightarrow> gen_msg_values v pfx = Inr fvs \<Longrightarrow> distinct (map fst fvs)"
  "wf_vals xs \<Longrightarrow> gen_list xs pfx i = Inr fvs \<Longrightarrow> distinct (map fst fvs)"
  "wf_fields fs \<Longrightarrow> distinct (map fst fs) \<Longrightarrow> gen_fields fs pfx = Inr fvs
     \<Longrightarrow> distinct (map fst fvs)"
proof (induction v pfx and xs pfx i and fs pfx arbitrary: fvs and fvs and fvs
    rule: gen_msg_values_gen_list_gen_fields.induct)
  case (1 xs pfx)
  then show ?case by simp
next
  case (2 fs pfx)
  then show ?case by simp
next
  case (3 v pfx)
  then show ?case by auto
next
  case (4 pfx i)
  then show ?case by simp
next
  case (5 val rest pfx i)
  from 5(4) obtain a b where ab: "gen_msg_values val (pfx @ ''['' @ str_nat i @ '']'') = Inr a"
    "gen_list rest pfx (Suc i) = Inr b" "fvs = a @ b"
    by (rule gen_list_Cons_Inr)
  from 5(3) have w: "wf_val val" "wf_vals rest" by simp_all
  have da: "distinct (map fst a)" using 5(1)[OF w(1) ab(1)] .
  have db: "distinct (map fst b)" using 5(2)[OF ab(1) w(2) ab(2)] .
  have "fst ` set a \<inter> fst ` set b = {}"
  proof (rule ccontr)
    assume "fst ` set a \<inter> fst ` set b \<noteq> {}"
    then obtain p where pa: "p \<in> fst ` set a" and pb: "p \<in> fst ` set b" by blast
    from gen_shape(1)[OF ab(1) _ pa] obtain s where
      s: "p = (pfx @ ''['' @ str_nat i @ '']'') @ s" by auto
    from gen_shape(2)[OF ab(2) pb] obtain k s' where
      k: "Suc i \<le> k" "p = pfx @ ''['' @ str_nat k @ '']'' @ s'" by blast
    from s k(2) have "str_nat i @ '']'' @ s = str_nat k @ '']'' @ s'" by simp
    then have "i = k" by (rule index_text_inj)
    with k(1) show False by simp
  qed
  with da db ab(3) show ?case by simp
next
  case (6 pfx)
  then show ?case by simp
next
  case (7 field field_type val rest pfx)
  let ?full = "if pfx \<noteq> [] then pfx @ ''.'' @ field else field"
  from 7(6) obtain a b where ab:
    "(if startswith field_type ''sequence<''
      then (case val of PyList ys \<Rightarrow> gen_list ys ?full 0
            | Leaf (Str t) \<Rightarrow> Inr (iter_chars t ?full) | _ \<Rightarrow> Inl TypeError)
      else gen_msg_values val ?full) = Inr a"
    "gen_fields rest pfx = Inr b" "fvs = a @ b"
    by (rule gen_fields_Cons_Inr)
  from 7(4) have w: "field \<noteq> []" "CHR ''.'' \<notin> set field" "CHR ''['' \<notin> set field"
    "wf_val val" "wf_fields rest"
    by simp_all
  from 7(5) have dn: "field \<notin> fst ` set rest" "distinct (map fst rest)" by simp_all
  from w(1) have ne: "?full \<noteq> []" by simp
  have da: "distinct (map fst a)"
    and sa: "\<forall>p \<in> fst ` set a. \<exists>s. p = ?full @ s \<and> tail_like s"
  proof -
    show "distinct (map fst a)"
    proof (cases "startswith field_type ''sequence<''")
      case True
      with ab(1) have sq: "(case val of PyList ys \<Rightarrow> gen_list ys ?full 0
            | Leaf (Str t) \<Rightarrow> Inr (iter_chars t ?full) | _ \<Rightarrow> Inl TypeError) = Inr a"
        by simp
      then show ?thesis
      proof (cases rule: sequence_value_Inr)
        case (elements ys)
        from w(4) elements(1) have "wf_vals ys" by simp
        from 7(1)[OF refl True elements(1) this elements(2)] show ?thesis .
      next
        case (characters t)
        then show ?thesis by (simp add: iter_chars_distinct)
      qed
    next
      case False
      with ab(1) have "gen_msg_values val ?full = Inr a" by simp
      from 7(2)[OF refl False w(4) this] show ?thesis .
    qed
    show "\<forall>p \<in> fst ` set a. \<exists>s. p = ?full @ s \<and> tail_like s"
    proof
      fix p assume pa: "p \<in> fst ` set a"
      show "\<exists>s. p = ?full @ s \<and> tail_like s"
      proof (cases "startswith field_type ''sequence<''")
        case True
        with ab(1) have sq: "(case val of PyList ys \<Rightarrow> gen_list ys ?full 0
            | Leaf (Str t) \<Rightarrow> Inr (iter_chars t ?full) | _ \<Rightarrow> Inl TypeError) = Inr a"
          by simp
        have "\<exists>k s. p = ?full @ ''['' @ str_nat k @ '']'' @ s"
          using sq
        proof (cases rule: sequence_value_Inr)
          case (elements ys)
          from gen_shape(2)[OF elements(2) pa] show ?thesis by blast
        next
          case (characters t)
          with pa iter_chars_shape[of p t ?full] show ?thesis by blast
        qed
        then obtain k s where "p = ?full @ ''['' @ str_nat k @ '']'' @ s" by blast
        then have "p = ?full @ (''['' @ str_nat k @ '']'' @ s)
            \<and> tail_like (''['' @ str_nat k @ '']'' @ s)"
          by (simp add: tail_like_def)
        then show ?thesis by blast
      next
        case False
        with ab(1) have "gen_msg_values val ?full = Inr a" by simp
        from gen_shape(1)[OF this ne pa] show ?thesis .
      qed
    qed
  qed
  have db: "distinct (map fst b)" using 7(3)[OF refl ab(1) w(5) dn(2) ab(2)] .
  have "fst ` set a \<inter> fst ` set b = {}"
  proof (rule ccontr)
    assume "fst ` set a \<inter> fst ` set b \<noteq> {}"
    then obtain p where pa: "p \<in> fst ` set a" and pb: "p \<in> fst ` set b" by blast
    from sa pa obtain s where s: "p = ?full @ s" "tail_like s" by blast
    have c: "pfx \<noteq> [] \<or> (\<forall>f \<in> fst ` set rest. f \<noteq> [])"
      using wf_fields_names[OF w(5)] by blast
    from gen_shape(3)[OF ab(2) c pb] obtain g s' where
      g: "g \<in> fst ` set rest" "p = (if pfx \<noteq> [] then pfx @ ''.'' @ g else g) @ s'" "tail_like s'"
      by blast
    from s(1) g(2) have "field @ s = g @ s'" by (cases "pfx = []") simp_all
    moreover from wf_fields_names[OF w(5) g(1)]
    have "CHR ''.'' \<notin> set g" "CHR ''['' \<notin> set g" by simp_all
    ultimately have "field = g"
      using w(2,3) s(2) g(3) by (intro name_before_tail[of field g s s']) simp_all
    with g(1) dn(1) show False by simp
  qed
  with da db ab(3) show ?case by simp
qed

lemma topic_flat_wf:
  "wf_bag msgs \<Longrightarrow> fvs \<in> set (topic_flat msgs T) \<Longrightarrow> distinct (map fst fvs)"
proof (induction msgs)
  case Nil
  then show ?case by (simp add: topic_flat_def)
next
  case (Cons x msgs)
  obtain t d ts where x: "x = (t, d, ts)" by (cases x) auto
  from Cons.prems(1) have wr: "wf_bag msgs" by (simp add: wf_bag_def)
  from Cons.prems(2) x consider "fvs \<in> set (topic_flat msgs T)"
    | m where "d = Inr m" "gen_msg_values m [] = Inr fvs"
    by (auto simp: topic_flat_def split: if_splits sum.splits)
  then show ?case
  proof cases
    case 1
    with wr Cons.IH show ?thesis by simp
  next
    case 2
    with Cons.prems(1) x have "wf_val m" by (simp add: wf_bag_def)
    then show ?thesis using 2(2) by (rule gen_distinct(1))
  qed
qed

text \<open>
  Counted as cells, the rows of a file match its header whatever the texts are: the
  header of a topic is \<open>time,\<close> followed by the joined paths of one of its messages, and
  every row is the join of a time and as many values as that header has paths.
\<close>

lemma row_cells_as_header_cells:
  assumes "(T, f) \<in> set (files (dump_bag io fl out msgs))"
    and "content f = h # rows"
    and "paths_stable msgs T"
    and "wf_bag msgs"
  shows "\<exists>fvs \<in> set (topic_flat msgs T). h = ''time,'' @ join '','' (header_fields fvs)
    \<and> (\<forall>row \<in> set rows. \<exists>t fvs'. row = join '','' (str_num fl t # row_values fl fvs')
          \<and> length (row_values fl fvs') = length (header_fields fvs))"
proof -
  from assms(4) have dist: "\<forall>fvs \<in> set (topic_flat msgs T). distinct (map fst fvs)"
    by (auto dest: topic_flat_wf)
  from files_header[OF assms(1,2)] obtain m ts fvs where
    hm: "(T, Inr m, ts) \<in> set msgs" "gen_msg_values m [] = Inr fvs" "h = header_line fvs"
    unfolding is_header_of_def by blast
  then have mem: "fvs \<in> set (topic_flat msgs T)" by (simp add: topic_flat_mem)
  have "\<exists>t fvs'. row = join '','' (str_num fl t # row_values fl fvs')
      \<and> length (row_values fl fvs') = length (header_fields fvs)" if "row \<in> set rows" for row
  proof -
    from that assms(2) have "row \<in> set (tl (content f))" by simp
    from files_rows[OF assms(1) this] obtain s m' ts' t fvs' where
      r: "(T, Inr m', ts') \<in> set msgs" "gen_msg_values m' [] = Inr fvs'"
        "row = row_line fl (py_sub fl t s) fvs'"
      unfolding is_row_of_def by blast
    then have mem': "fvs' \<in> set (topic_flat msgs T)" by (simp add: topic_flat_mem)
    have "length (header_fields fvs') = length (header_fields fvs)"
      using assms(3) dist mem' mem by (rule stable_same_length)
    with r(3) show ?thesis by (auto simp: row_line_def row_values_length)
  qed
  with mem hm(3) show ?thesis by (auto simp: header_line_def)
qed

text \<open>
  C9, as the code has it. Take a bag of well-formed messages and a topic whose messages
  all flatten to the same set of field paths as its first message. If, further, these
  messages have at least one path that does not start with \<open>header.\<close>, and no path and
  no text of a value or of a time has a comma or a line end in it, then in every
  outcome the first line printed to the topic's file is the header of one of its
  messages, and every later line has as many columns (fields between commas) as that
  header: one more than the number of those paths. When the pass has returned and no
  other topic was written to a file of the same name, the lines of the file are that
  header and those rows.
\<close>

theorem rows_match_header_columns:
  assumes "(T, f) \<in> set (files (dump_bag io fl out msgs))"
    and "content f = h # rows"
    and "paths_stable msgs T"
    and "wf_bag msgs"
    and "\<forall>fvs \<in> set (topic_flat msgs T). header_fields fvs \<noteq> []"
    and "\<forall>fvs \<in> set (topic_flat msgs T). \<forall>(p, v) \<in> set fvs. plain p \<and> plain (py_str fl v)"
    and "\<forall>d. plain (f_repr fl d)"
  shows "(\<exists>fvs \<in> set (topic_flat msgs T).
            h = header_line fvs \<and> columns h = Suc (length (header_fields fvs)))
    \<and> (\<forall>row \<in> set rows. columns row = columns h)
    \<and> (\<forall>text. file_text (dump_bag io fl out msgs) (filename f) = Some text
          \<longrightarrow> file_lines text = h # rows)"
proof -
  from assms(4) have dist: "\<forall>fvs \<in> set (topic_flat msgs T). distinct (map fst fvs)"
    by (auto dest: topic_flat_wf)
  from files_header[OF assms(1,2)] obtain m ts fvs where
    hm: "(T, Inr m, ts) \<in> set msgs" "gen_msg_values m [] = Inr fvs" "h = header_line fvs"
    unfolding is_header_of_def by blast
  then have mem: "fvs \<in> set (topic_flat msgs T)" by (simp add: topic_flat_mem)
  with assms(5,6) have hp: "header_fields fvs \<noteq> []" "\<forall>(p, v) \<in> set fvs. plain p"
    by auto
  then have ch: "columns h = Suc (length (header_fields fvs))"
    unfolding hm(3) by (rule columns_header_line)
  from header_line_unbroken[OF hp(2)] hm(3)
  have hb: "CHR 0x0A \<notin> set h \<and> CHR 0x0D \<notin> set h" by simp
  have row: "columns row = columns h \<and> CHR 0x0A \<notin> set row \<and> CHR 0x0D \<notin> set row"
    if "row \<in> set rows" for row
  proof -
    from that assms(2) have "row \<in> set (tl (content f))" by simp
    from files_rows[OF assms(1) this] obtain s m' ts' t fvs' where
      r: "(T, Inr m', ts') \<in> set msgs" "gen_msg_values m' [] = Inr fvs'"
        "row = row_line fl (py_sub fl t s) fvs'"
      unfolding is_row_of_def by blast
    then have mem': "fvs' \<in> set (topic_flat msgs T)" by (simp add: topic_flat_mem)
    with assms(6) have vp: "\<forall>(p, v) \<in> set fvs'. plain (py_str fl v)" by auto
    then have "columns row = Suc (length (header_fields fvs'))"
      unfolding r(3) using assms(7) by (rule columns_row_line)
    also have "length (header_fields fvs') = length (header_fields fvs)"
      using assms(3) dist mem' mem by (rule stable_same_length)
    finally have "columns row = columns h" using ch by simp
    with row_line_unbroken[OF vp assms(7), of "py_sub fl t s"] r(3) show ?thesis by simp
  qed
  have "file_lines body = h # rows"
    if "file_text (dump_bag io fl out msgs) (filename f) = Some body" for body
  proof -
    from file_text_of[OF assms(1) that] have "body = stream f" .
    moreover have "\<forall>l \<in> set (h # rows). CHR 0x0A \<notin> set l \<and> CHR 0x0D \<notin> set l"
      using hb row by simp
    then have "lines_from [] (concat (map (\<lambda>line. line @ [CHR 0x0A]) (h # rows))) = h # rows"
      by (rule file_lines_stream)
    ultimately show ?thesis using assms(2) by (simp add: file_lines_def stream_def)
  qed
  with mem hm(3) ch row show ?thesis by blast
qed

theorem rows_match_header_columns_witness:
  "paths_stable example_bag ''/a'' \<and> wf_bag example_bag
   \<and> columns ''0.0,x'' = columns ''time,data''
   \<and> columns ''1.5,y'' = columns ''time,data''
   \<and> file_text (dump_bag no_failures example_floats ''out'' example_bag) ''out/a.csv''
       = Some (''time,data'' @ [CHR 0x0A] @ ''0.0,x'' @ [CHR 0x0A] @ ''1.5,y'' @ [CHR 0x0A])
   \<and> file_lines (''time,data'' @ [CHR 0x0A] @ ''0.0,x'' @ [CHR 0x0A] @ ''1.5,y'' @ [CHR 0x0A])
       = [''time,data'', ''0.0,x'', ''1.5,y'']"
proof -
  let ?f = "\<lparr>filename = ''out/a.csv'', content = [''time,data'', ''0.0,x'', ''1.5,y''],
             closed = True\<rparr>"
  let ?text = "''time,data'' @ [CHR 0x0A] @ ''0.0,x'' @ [CHR 0x0A] @ ''1.5,y'' @ [CHR 0x0A]"
  have h1: "(''/a'', ?f) \<in> set (files (dump_bag no_failures example_floats ''out'' example_bag))"
    by (simp add: example_bag_result)
  have h2: "content ?f = ''time,data'' # [''0.0,x'', ''1.5,y'']" by simp
  have tf: "topic_flat example_bag ''/a'' =
      [[(''header.stamp.sec'', Num (PyInt 1)), (''header.stamp.nanosec'', Num (PyInt 500000000)),
        (''header.frame_id'', Str ''map''), (''data'', Str ''x'')],
       [(''header.stamp.sec'', Num (PyInt 3)), (''header.stamp.nanosec'', Num (PyInt 0)),
        (''header.frame_id'', Str ''map''), (''data'', Str ''y'')]]"
    by (simp add: topic_flat_def example_bag_def msg_stamped_def msg_plain_def startswith_def)
  have h3: "paths_stable example_bag ''/a''"
    by (simp add: paths_stable_def tf)
  have h4: "wf_bag example_bag"
    by (simp add: wf_bag_def example_bag_def msg_stamped_def msg_plain_def)
  have h5: "\<forall>fvs \<in> set (topic_flat example_bag ''/a''). header_fields fvs \<noteq> []"
    by (simp add: tf header_fields_def startswith_def)
  have h6: "\<forall>fvs \<in> set (topic_flat example_bag ''/a''). \<forall>(p, v) \<in> set fvs.
           plain p \<and> plain (py_str example_floats v)"
    by (simp add: tf plain_def str_int_def str_nat.simps)
  have h7: "\<forall>d. plain (f_repr example_floats d)"
    by (simp add: example_floats_def plain_def)
  note T = rows_match_header_columns[OF h1 h2 h3 h4 h5 h6 h7, THEN conjunct2]
  have a: "columns ''0.0,x'' = columns ''time,data''"
    by (rule bspec[OF T[THEN conjunct1]]) simp
  have b: "columns ''1.5,y'' = columns ''time,data''"
    by (rule bspec[OF T[THEN conjunct1]]) simp
  have c': "file_text (dump_bag no_failures example_floats ''out'' example_bag) (filename ?f)
      = Some ?text"
    by (simp add: example_bag_result file_text_def stream_def)
  then have c: "file_text (dump_bag no_failures example_floats ''out'' example_bag) ''out/a.csv''
      = Some ?text"
    by simp
  have "file_lines ?text = ''time,data'' # [''0.0,x'', ''1.5,y'']"
    by (rule mp[OF spec[OF T[THEN conjunct2]] c'])
  then have d: "file_lines ?text = [''time,data'', ''0.0,x'', ''1.5,y'']" .
  show ?thesis by (intro conjI h3 h4 a b c d)
qed

text \<open>
  A value with a comma in it is printed as it is, and the row then has one column more
  than the header, the paths being the same.
\<close>

theorem comma_in_value_adds_column:
  "paths_stable [(''/c'', Inr (msg_text ''a,b''), 5)] ''/c''
   \<and> dump_bag no_failures example_floats ''out'' [(''/c'', Inr (msg_text ''a,b''), 5)]
       = \<lparr>outcome = Inr 1,
          files = [(''/c'', \<lparr>filename = ''out/c.csv'', content = [''time,data'', ''0,a,b''],
                             closed = True\<rparr>)]\<rparr>
   \<and> columns ''time,data'' = 2 \<and> columns ''0,a,b'' = 3
   \<and> map_option file_lines
        (file_text (dump_bag no_failures example_floats ''out''
           [(''/c'', Inr (msg_text ''a,b''), 5)]) ''out/c.csv'')
       = Some [''time,data'', ''0,a,b'']"
proof -
  have p: "paths_stable [(''/c'', Inr (msg_text ''a,b''), 5)] ''/c''"
    by (simp add: paths_stable_def topic_flat_def msg_text_def startswith_def)
  have d: "dump_bag no_failures example_floats ''out'' [(''/c'', Inr (msg_text ''a,b''), 5)]
       = \<lparr>outcome = Inr 1,
          files = [(''/c'', \<lparr>filename = ''out/c.csv'', content = [''time,data'', ''0,a,b''],
                             closed = True\<rparr>)]\<rparr>"
    by (simp add: dump_eval msg_text_def)
  have c2: "columns ''time,data'' = 2" by (simp add: columns_def)
  have c3: "columns ''0,a,b'' = 3" by (simp add: columns_def)
  have l: "map_option file_lines
        (file_text (dump_bag no_failures example_floats ''out''
           [(''/c'', Inr (msg_text ''a,b''), 5)]) ''out/c.csv'')
       = Some [''time,data'', ''0,a,b'']"
    unfolding d by (simp add: file_text_def stream_def file_lines_def)
  show ?thesis by (intro conjI p d c2 c3 l)
qed

text \<open>
  A value with a line end in it is printed as it is too, and its row is two lines of
  the file, neither with the columns of the header.
\<close>

lemma line_end_in_value_splits_row:
  "map_option file_lines
     (file_text (dump_bag no_failures example_floats ''out''
        [(''/c'', Inr (msg_text (''a'' @ [CHR 0x0A] @ ''b'')), 5)]) ''out/c.csv'')
   = Some [''time,data'', ''0,a'', ''b'']"
proof -
  have d: "dump_bag no_failures example_floats ''out''
      [(''/c'', Inr (msg_text (''a'' @ [CHR 0x0A] @ ''b'')), 5)]
       = \<lparr>outcome = Inr 1,
          files = [(''/c'', \<lparr>filename = ''out/c.csv'',
                             content = [''time,data'', ''0,a'' @ [CHR 0x0A] @ ''b''],
                             closed = True\<rparr>)]\<rparr>"
    by (simp add: dump_eval msg_text_def)
  show ?thesis unfolding d by (simp add: file_text_def stream_def file_lines_def)
qed

text \<open>
  Two topics that differ in a slash and an underscore only have the same file name; the
  two file objects write to one file, and the model does not say what it holds.
\<close>

lemma topics_sharing_a_file:
  "csv_filename ''out'' ''/a/b'' = csv_filename ''out'' ''/a_b''
   \<and> map filename (map snd (files (dump_bag no_failures example_floats ''out''
        [(''/a/b'', Inr (msg_plain 7), 5), (''/a_b'', Inr (msg_plain 8), 6)])))
      = [''out/a_b.csv'', ''out/a_b.csv'']
   \<and> file_text (dump_bag no_failures example_floats ''out''
        [(''/a/b'', Inr (msg_plain 7), 5), (''/a_b'', Inr (msg_plain 8), 6)]) ''out/a_b.csv''
      = None"
  by (simp add: dump_eval msg_plain_def file_text_def)

text \<open>
  A message with no field outside its header (\<^verbatim>\<open>std_msgs/msg/Empty\<close> has none at all):
  the header row is \<open>time,\<close>, with a comma after it, and the rows have the time alone.
\<close>

lemma empty_message_header_line:
  "dump_bag no_failures example_floats ''out''
      [(''/e'', Inr msg_empty, 5), (''/e'', Inr msg_empty, 8)]
     = \<lparr>outcome = Inr 1,
        files = [(''/e'', \<lparr>filename = ''out/e.csv'', content = [''time,'', ''0'', ''3''],
                           closed = True\<rparr>)]\<rparr>
   \<and> columns ''time,'' = 2 \<and> columns ''0'' = 1"
  by (simp add: dump_eval msg_empty_def columns_def)

section \<open>The structured layout\<close>

lemma map_of_map_child:
  "map_of (map (\<lambda>(n, ch). if n = c then (n, g ch) else (n, ch)) es) k =
     (if k = c then map_option g (map_of es k) else map_of es k)"
  by (induction es) auto

lemma lookup_add_dir_new:
  "fs_lookup fs p = Some (Dir es) \<Longrightarrow> map_of es name = None \<Longrightarrow>
   fs_lookup (add_dir fs p name) (p @ [name]) = Some (Dir [])"
proof (induction fs p name arbitrary: es rule: add_dir.induct)
  case (1 es0 name)
  then show ?case by (simp add: map_add_def)
next
  case (2 es0 c cs name)
  from 2(2) obtain child where c: "map_of es0 c = Some child" "fs_lookup child cs = Some (Dir es)"
    by (auto split: option.splits)
  then have "(c, child) \<in> set es0" by (auto dest: map_of_SomeD)
  from 2(1)[OF this refl refl c(2) 2(3)]
  have "fs_lookup (add_dir child cs name) (cs @ [name]) = Some (Dir [])" by simp
  with c(1) show ?case by (simp add: map_of_map_child)
next
  case (3 p name)
  then show ?case by (cases p) simp_all
qed

lemma lookup_add_dir_sibling:
  "other \<noteq> name \<Longrightarrow>
   fs_lookup (add_dir fs p name) (p @ other # rest) = fs_lookup fs (p @ other # rest)"
proof (induction fs p name rule: add_dir.induct)
  case (1 es name)
  then show ?case by (simp add: map_add_def split: option.splits)
next
  case (2 es c cs name)
  show ?case
  proof (cases "map_of es c")
    case None
    then show ?thesis by (simp add: map_of_map_child)
  next
    case (Some child)
    then have "(c, child) \<in> set es" by (auto dest: map_of_SomeD)
    from 2(1)[OF this refl refl 2(2)] Some show ?thesis by (simp add: map_of_map_child)
  qed
next
  case (3 p name)
  then show ?case by simp
qed

lemma is_dir_parent: "is_dir fs (p @ [n]) \<Longrightarrow> is_dir fs p"
proof -
  assume a: "is_dir fs (p @ [n])"
  then obtain m where m: "fs_lookup fs p = Some m" "fs_lookup m [n] \<noteq> None"
    by (auto simp: is_dir_def fs_lookup_append split: option.splits)
  then show ?thesis by (cases m) (simp_all add: is_dir_def)
qed

lemma mkdir_csv:
  assumes "is_dir fs p" and "fs_lookup fs (p @ [name]) \<noteq> Some File"
  shows "\<exists>fs'. mkdir_exist_ok fs (p @ [name]) = Inr fs'
      \<and> fs' = (if path_exists fs (p @ [name]) then fs else add_dir fs p name)
      \<and> is_dir fs' (p @ [name])"
proof -
  from assms(1) obtain es where es: "fs_lookup fs p = Some (Dir es)"
    by (auto simp: is_dir_def split: option.splits node.splits)
  show ?thesis
  proof (cases "fs_lookup fs (p @ [name])")
    case None
    with es have "map_of es name = None" by (simp add: fs_lookup_child)
    with es have "fs_lookup (add_dir fs p name) (p @ [name]) = Some (Dir [])"
      by (rule lookup_add_dir_new)
    with None es show ?thesis
      by (simp add: mkdir_exist_ok_def path_exists_def is_dir_def)
  next
    case (Some n)
    with assms(2) obtain es' where "n = Dir es'" by (cases n) auto
    with Some show ?thesis
      by (simp add: mkdir_exist_ok_def path_exists_def is_dir_def)
  qed
qed

lemma is_rosbag_dir_add_dir:
  assumes "other \<noteq> name"
  shows "is_rosbag_dir (add_dir fs p name) (p @ other # rest) = is_rosbag_dir fs (p @ other # rest)"
proof -
  have a: "fs_lookup (add_dir fs p name) (p @ other # rest) = fs_lookup fs (p @ other # rest)"
    using assms by (rule lookup_add_dir_sibling)
  have "fs_lookup (add_dir fs p name) (p @ other # (rest @ [''metadata.yaml'']))
      = fs_lookup fs (p @ other # (rest @ [''metadata.yaml'']))"
    using assms by (rule lookup_add_dir_sibling)
  then have b: "fs_lookup (add_dir fs p name) ((p @ other # rest) @ [''metadata.yaml''])
      = fs_lookup fs ((p @ other # rest) @ [''metadata.yaml''])"
    by simp
  show ?thesis
    unfolding is_rosbag_dir_def is_dir_def path_exists_def glob_db3_def listdir_def a b ..
qed

lemma walk_cong:
  "(\<And>q. prefix p q \<Longrightarrow> is_rosbag_dir fs' q = is_rosbag_dir fs q) \<Longrightarrow>
   walk_bags fs' p n = walk_bags fs p n"
  "(\<And>q. prefix p q \<Longrightarrow> is_rosbag_dir fs' q = is_rosbag_dir fs q) \<Longrightarrow>
   walk_subdirs fs' p es = walk_subdirs fs p es"
proof (induction fs p n and fs p es rule: walk_bags_walk_subdirs.induct)
  case (1 fs dirpath)
  then show ?case by simp
next
  case (2 fs dirpath es)
  have "is_rosbag_dir fs' dirpath = is_rosbag_dir fs dirpath" by (rule 2(2)) simp
  with 2 show ?case by simp
next
  case (3 fs dirpath)
  then show ?case by simp
next
  case (4 fs dirpath name child rest)
  have "walk_bags fs' (dirpath @ [name]) child = walk_bags fs (dirpath @ [name]) child"
  proof (rule 4(1))
    fix q assume "prefix (dirpath @ [name]) q"
    then have "prefix dirpath q" by (rule append_prefixD)
    then show "is_rosbag_dir fs' q = is_rosbag_dir fs q" by (rule 4(3))
  qed
  moreover have "walk_subdirs fs' dirpath rest = walk_subdirs fs dirpath rest"
    by (rule 4(2)) (rule 4(3))
  ultimately show ?case by simp
qed

lemma find_rosbags_add_dir:
  assumes "other \<noteq> name"
  shows "find_rosbags (add_dir fs p name) (p @ [other]) = find_rosbags fs (p @ [other])"
proof -
  have l: "fs_lookup (add_dir fs p name) (p @ [other]) = fs_lookup fs (p @ [other])"
    using assms by (rule lookup_add_dir_sibling)
  have w: "walk_bags (add_dir fs p name) (p @ [other]) n = walk_bags fs (p @ [other]) n" for n
  proof (rule walk_cong(1))
    fix q assume "prefix (p @ [other]) q"
    then obtain rest where "q = p @ other # rest" by (auto simp: prefix_def)
    with assms show "is_rosbag_dir (add_dir fs p name) q = is_rosbag_dir fs q"
      by (simp add: is_rosbag_dir_add_dir)
  qed
  show ?thesis
    unfolding find_rosbags_def l by (cases "fs_lookup fs (p @ [other])") (simp_all add: w)
qed

lemma find_rosbags_below: "b \<in> set (find_rosbags fs root_path) \<Longrightarrow> prefix root_path b"
  by (auto simp: find_rosbags_def split: option.splits dest: walk_prefix(1))

lemma mirror_fun: "mirror root_dir csv_dir = (\<lambda>b. (b, csv_dir @ drop (length root_dir) b))"
  by (rule ext) (simp add: mirror_def)

lemma process_each_mirrored:
  assumes "\<forall>b \<in> set bags. prefix root_dir b"
  shows "prefix (fst (process_each dump root_dir csv_dir bags)) (map (mirror root_dir csv_dir) bags)
    \<and> ((\<forall>b \<in> set bags. \<exists>n. dump b (snd (mirror root_dir csv_dir b)) = Inr n)
        \<longrightarrow> process_each dump root_dir csv_dir bags = (map (mirror root_dir csv_dir) bags, Inr ()))"
  using assms
proof (induction bags)
  case Nil
  then show ?case by simp
next
  case (Cons b bags)
  then have rel: "get_relative_structure b root_dir = Inr (drop (length root_dir) b)"
    by (simp add: get_relative_structure_def)
  from Cons have ih: "prefix (fst (process_each dump root_dir csv_dir bags))
      (map (mirror root_dir csv_dir) bags)"
    "(\<forall>b \<in> set bags. \<exists>n. dump b (snd (mirror root_dir csv_dir b)) = Inr n)
      \<longrightarrow> process_each dump root_dir csv_dir bags = (map (mirror root_dir csv_dir) bags, Inr ())"
    by simp_all
  show ?case
  proof (cases "dump b (csv_dir @ drop (length root_dir) b)")
    case (Inl e)
    with rel show ?thesis by (simp add: mirror_fun)
  next
    case (Inr n)
    with rel ih show ?thesis
      by (cases "process_each dump root_dir csv_dir bags") (auto simp: mirror_fun)
  qed
qed

text \<open>
  C7. Let the input path not be a bag directory but have a subdirectory \<open>ros2bag\<close>, and
  let \<open>csv\<close> beside it not be a file of another kind. Then \<open>main\<close> leaves a directory
  \<open>csv\<close> in the input directory, made empty when there was none. The bags are those
  \<open>find_rosbags\<close> finds below \<open>ros2bag\<close>, each of them below that root, and every call
  to \<open>process_single_bag\<close> is, in that order, for a bag and the output directory at the
  bag's path relative to \<open>ros2bag\<close>, under \<open>csv\<close>. When no dump raises, every bag found
  gets its call; \<open>main\<close> then returns, or exits with status 1 when no bag was found.
\<close>

theorem structured_layout_mirrors:
  assumes "\<not> is_rosbag_dir fs input_path"
    and "is_dir fs (input_path @ [''ros2bag''])"
    and "fs_lookup fs (input_path @ [''csv'']) \<noteq> Some File"
  shows "fst (main dump fs input_path) =
           (if path_exists fs (input_path @ [''csv'']) then fs else add_dir fs input_path ''csv'')
    \<and> is_dir (fst (main dump fs input_path)) (input_path @ [''csv''])
    \<and> (\<forall>b \<in> set (find_rosbags fs (input_path @ [''ros2bag''])).
          prefix (input_path @ [''ros2bag'']) b)
    \<and> prefix (fst (snd (main dump fs input_path)))
         (map (mirror (input_path @ [''ros2bag'']) (input_path @ [''csv'']))
            (find_rosbags fs (input_path @ [''ros2bag''])))
    \<and> ((\<forall>b \<in> set (find_rosbags fs (input_path @ [''ros2bag''])).
           \<exists>n. dump b (snd (mirror (input_path @ [''ros2bag'']) (input_path @ [''csv'']) b)) = Inr n)
        \<longrightarrow> snd (main dump fs input_path) =
              (map (mirror (input_path @ [''ros2bag'']) (input_path @ [''csv'']))
                 (find_rosbags fs (input_path @ [''ros2bag''])),
               if find_rosbags fs (input_path @ [''ros2bag'']) = [] then Inl (SystemExit 1)
               else Inr ()))"
proof -
  let ?root = "input_path @ [''ros2bag'']" and ?csv = "input_path @ [''csv'']"
  from assms(2) have d: "is_dir fs input_path" by (rule is_dir_parent)
  then have e: "path_exists fs input_path"
    by (auto simp: is_dir_def path_exists_def split: option.splits)
  from assms(2) have r: "path_exists fs ?root"
    by (auto simp: is_dir_def path_exists_def split: option.splits)
  from mkdir_csv[OF d assms(3)] obtain fs' where
    mk: "mkdir_exist_ok fs ?csv = Inr fs'"
    and fs': "fs' = (if path_exists fs ?csv then fs else add_dir fs input_path ''csv'')"
    and cd: "is_dir fs' ?csv"
    by blast
  have same: "find_rosbags fs' ?root = find_rosbags fs ?root"
    unfolding fs' by (simp add: find_rosbags_add_dir)
  have below: "\<forall>b \<in> set (find_rosbags fs ?root). prefix ?root b"
    by (auto dest: find_rosbags_below)
  obtain calls res where pe: "process_each dump ?root ?csv (find_rosbags fs ?root) = (calls, res)"
    by (cases "process_each dump ?root ?csv (find_rosbags fs ?root)") auto
  have m: "main dump fs input_path =
      (if find_rosbags fs ?root = [] then (fs', [], Inl (SystemExit 1)) else (fs', calls, res))"
    using assms(1) d e r mk same pe
    by (simp add: main_def process_structured_bags_def Let_def)
  from process_each_mirrored[OF below, of dump ?csv] pe
  have p1: "prefix calls (map (mirror ?root ?csv) (find_rosbags fs ?root))"
    and p2: "(\<forall>b \<in> set (find_rosbags fs ?root). \<exists>n. dump b (snd (mirror ?root ?csv b)) = Inr n)
      \<longrightarrow> (calls, res) = (map (mirror ?root ?csv) (find_rosbags fs ?root), Inr ())"
    by simp_all
  show ?thesis
  proof (cases "find_rosbags fs ?root = []")
    case True
    with m fs' cd below show ?thesis by simp
  next
    case False
    with m fs' cd below p1 p2 show ?thesis by simp
  qed
qed
theorem structured_layout_mirrors_witness:
  "fst (main (\<lambda>b out. Inr 1) project_tree []) = add_dir project_tree [] ''csv''
   \<and> snd (main (\<lambda>b out. Inr 1) project_tree []) =
       ([([''ros2bag'', ''cfg1'', ''t1''], [''csv'', ''cfg1'', ''t1'']),
         ([''ros2bag'', ''cfg1'', ''t2''], [''csv'', ''cfg1'', ''t2'']),
         ([''ros2bag'', ''cfg2'', ''t1''], [''csv'', ''cfg2'', ''t1''])], Inr ())"
proof -
  have h1: "\<not> is_rosbag_dir project_tree []"
    by (simp add: fs_eval project_tree_def)
  have h2: "is_dir project_tree ([] @ [''ros2bag''])"
    by (simp add: is_dir_def project_tree_def)
  have h3: "fs_lookup project_tree ([] @ [''csv'']) \<noteq> Some File"
    by (simp add: project_tree_def)
  note T = structured_layout_mirrors[OF h1 h2 h3, of "\<lambda>b out. Inr 1"]
  have pe: "path_exists project_tree ([] @ [''csv'']) = False"
    by (simp add: path_exists_def project_tree_def)
  have fb: "find_rosbags project_tree ([] @ [''ros2bag'']) =
      [[''ros2bag'', ''cfg1'', ''t1''], [''ros2bag'', ''cfg1'', ''t2''],
       [''ros2bag'', ''cfg2'', ''t1'']]"
    by (simp add: fs_eval project_tree_def)
  have a: "fst (main (\<lambda>b out. Inr 1) project_tree []) = add_dir project_tree [] ''csv''"
    using T[THEN conjunct1] by (simp only: pe if_False)
  have ok: "\<forall>b \<in> set (find_rosbags project_tree ([] @ [''ros2bag''])).
      \<exists>n. (\<lambda>b out. Inr 1) b (snd (mirror ([] @ [''ros2bag'']) ([] @ [''csv'']) b)) = Inr (n::nat)"
    by simp
  have "snd (main (\<lambda>b out. Inr 1) project_tree []) =
      (map (mirror ([] @ [''ros2bag'']) ([] @ [''csv'']))
         (find_rosbags project_tree ([] @ [''ros2bag''])),
       if find_rosbags project_tree ([] @ [''ros2bag'']) = [] then Inl (SystemExit 1)
       else Inr ())"
    by (rule mp[OF T[THEN conjunct2, THEN conjunct2, THEN conjunct2, THEN conjunct2] ok])
  also have "\<dots> =
      ([([''ros2bag'', ''cfg1'', ''t1''], [''csv'', ''cfg1'', ''t1'']),
        ([''ros2bag'', ''cfg1'', ''t2''], [''csv'', ''cfg1'', ''t2'']),
        ([''ros2bag'', ''cfg2'', ''t1''], [''csv'', ''cfg2'', ''t1''])], Inr ())"
    unfolding fb by (simp add: mirror_def)
  finally have b: "snd (main (\<lambda>b out. Inr 1) project_tree []) =
      ([([''ros2bag'', ''cfg1'', ''t1''], [''csv'', ''cfg1'', ''t1'']),
        ([''ros2bag'', ''cfg1'', ''t2''], [''csv'', ''cfg1'', ''t2'']),
        ([''ros2bag'', ''cfg2'', ''t1''], [''csv'', ''cfg2'', ''t1''])], Inr ())" .
  show ?thesis by (intro conjI a b)
qed

end
